theory Spec2Isabelle
  imports Main "HOL-Library.Word"
begin

section \<open>The naive gossip simulator (package naivep2p)\<close>

text \<open>
  The simulator runs one goroutine per node (\<open>runNode\<close>), one goroutine per message
  in transit (\<open>sendMessage\<close>) and the caller of \<open>SendMessage\<close>. All channels are
  unbuffered, so a channel operation is a rendezvous of a sender and a receiver. The
  embedding is a labelled transition system: the state holds the fields of the
  \<open>Simulator\<close> struct, the control state of every goroutine and a clock; an action of
  the scheduler picks which goroutine takes its next step. Go's \<open>select\<close> picks among
  the ready cases at random, and \<open>time.Sleep\<close> and timers wake no earlier than asked,
  which is the scheduler's freedom here.
\<close>

subsection \<open>Data\<close>

text \<open>\<open>type Message struct { Content string; TTL int }\<close>, Go's \<open>int\<close> at 64 bits.\<close>

record Message =
  Content :: string
  TTL :: "64 word"

text \<open>
  Modelled from the spec: the type \<open>LogEntry\<close> and its constructor \<open>NewLogEntry\<close> are
  declared outside the given sources. The spec gives a log entry a timestamp relative to
  the start of the run, the index of the sender and the index of the receiver.
  Times are nanoseconds (\<open>time.Duration\<close>); the first argument is the clock's reading
  when the constructor runs.
\<close>

record LogEntry =
  Ts :: int
  From :: int
  To :: int

definition NewLogEntry :: "int \<Rightarrow> int \<Rightarrow> int \<Rightarrow> int \<Rightarrow> LogEntry" where
  "NewLogEntry t start from to = \<lparr>Ts = t - start, From = from, To = to\<rparr>"

text \<open>
  The graph library is an external dependency; the simulator reads the number of nodes
  only, the statistics read the identifier of a node and the number of links.
\<close>

record Graph =
  node_ids :: "string list"
  link_list :: "(int \<times> int) list"

text \<open>
  A goroutine running \<open>sendMessage(from, to, message)\<close>: blocked in the send on
  \<open>s.nodesCh[to]\<close>, or blocked in the send of its entry on \<open>s.reportCh\<close>, or finished.
\<close>

datatype stage = AtNodeCh | AtReportCh LogEntry | Finished

record sender =
  sfrom :: int
  sto :: int
  smessage :: Message
  sstage :: stage

text \<open>
  A goroutine running \<open>runNode(i, ch)\<close>: not yet scheduled; blocked in the \<open>select\<close>
  with its timer's deadline and its cache; inside \<open>propagateMessage\<close>'s
  \<open>time.Sleep\<close> with the time to wake at and the message to forward; returned.
\<close>

type_synonym cache = "string \<rightharpoonup> bool"

datatype actor =
    Created
  | Select int cache
  | Sleeping int cache int Message
  | Exited

text \<open>
  The caller of \<open>SendMessage\<close>: not calling; inside \<open>propagateMessage\<close>'s sleep
  (time to wake at, start node, seed message); in the collecting loop with \<open>ret\<close>;
  returned with \<open>ret\<close> (the conversion \<open>logEntries2PropagationLog\<close> lies outside the
  given sources).
\<close>

datatype caller =
    NotCalled
  | InDelay int int Message
  | Collecting "LogEntry list"
  | Returned "LogEntry list"

text \<open>
  The struct \<open>Simulator\<close>. \<open>nodesCh\<close> holds, per node, the goroutine that receives
  from the node's channel; \<open>reportCh\<close> is the rendezvous of a sender at \<open>AtReportCh\<close>
  with the collecting caller; \<open>wg\<close> is the wait group's counter. \<open>clock\<close>, \<open>senders\<close>
  and \<open>caller\<close> are the runtime around the struct.
\<close>

record Simulator =
  data :: Graph
  delay :: int
  peers :: "int \<rightharpoonup> int list"
  nodesCh :: "actor list"
  peersToSendTo :: int
  wg :: int
  simulationStart :: int
  clock :: int
  senders :: "sender list"
  caller :: caller

datatype fatal = IndexOutOfRange | NegativeWaitGroup

datatype outcome = Blocked | Panic fatal | Next Simulator

subsection \<open>Operations\<close>

definition second :: int where
  "second = 1000000000"

text \<open>Indexing a slice panics outside \<open>0 \<le> i < len\<close>.\<close>

definition valid_idx :: "'a list \<Rightarrow> int \<Rightarrow> bool" where
  "valid_idx xs i = (0 \<le> i \<and> i < int (length xs))"

text \<open>Reading a Go map at a missing key gives the zero value.\<close>

definition cached :: "cache \<Rightarrow> string \<Rightarrow> bool" where
  "cached c k = (case c k of None \<Rightarrow> False | Some b \<Rightarrow> b)"

definition peers_of :: "Simulator \<Rightarrow> int \<Rightarrow> int list" where
  "peers_of s i = (case peers s i of None \<Rightarrow> [] | Some ps \<Rightarrow> ps)"

text \<open>
  \<open>propagateMessage\<close> after its sleep: one \<open>go s.sendMessage(from, peers[i], message)\<close>
  per element of \<open>s.peers[from]\<close>.
\<close>

definition propagateMessage :: "Simulator \<Rightarrow> int \<Rightarrow> Message \<Rightarrow> sender list" where
  "propagateMessage s from message =
     map (\<lambda>p. \<lparr>sfrom = from, sto = p, smessage = message, sstage = AtNodeCh\<rparr>) (peers_of s from)"

text \<open>
  The message branch of \<open>runNode\<close>'s select, up to the call of \<open>propagateMessage\<close>:
  \<open>continue\<close> on a cached content, else record the content and decrement the TTL,
  \<open>return\<close> when it is zero.
\<close>

datatype verdict = Duplicate | Exhausted | Forward Message

definition runNode_message :: "cache \<Rightarrow> Message \<Rightarrow> cache \<times> verdict" where
  "runNode_message c message =
     (if cached c (Content message) then (c, Duplicate)
      else
        (let c' = c(Content message \<mapsto> True);
             message' = message\<lparr>TTL := TTL message - 1\<rparr>
         in if TTL message' = 0 then (c', Exhausted) else (c', Forward message')))"

text \<open>\<open>defer s.wg.Done()\<close>: a negative counter panics.\<close>

definition wgDone :: "Simulator \<Rightarrow> outcome" where
  "wgDone s = (if wg s - 1 < 0 then Panic NegativeWaitGroup else Next (s\<lparr>wg := wg s - 1\<rparr>))"

text \<open>Time passes.\<close>

definition advance :: "Simulator \<Rightarrow> int \<Rightarrow> outcome" where
  "advance s d = (if d < 0 then Blocked else Next (s\<lparr>clock := clock s + d\<rparr>))"

text \<open>
  \<open>runNode\<close> up to its select: \<open>t := time.NewTimer(10 * time.Second)\<close> and the empty
  cache.
\<close>

definition runNode_start :: "Simulator \<Rightarrow> int \<Rightarrow> outcome" where
  "runNode_start s i =
     (if valid_idx (nodesCh s) i then
        (case nodesCh s ! nat i of
           Created \<Rightarrow>
             Next (s\<lparr>nodesCh := (nodesCh s)[nat i := Select (clock s + 10 * second) Map.empty]\<rparr>)
         | _ \<Rightarrow> Blocked)
      else Blocked)"

text \<open>
  The rendezvous on \<open>s.nodesCh[to]\<close>: sender \<open>k\<close> passes its message to the actor, which
  must be in its select. The sender goes on to create its log entry (the clock is read in
  the same step) and to block on \<open>s.reportCh\<close>; the actor runs the message branch.
\<close>

definition sendMessage_deliver :: "Simulator \<Rightarrow> nat \<Rightarrow> outcome" where
  "sendMessage_deliver s k =
     (if k < length (senders s) then
        (let g = senders s ! k in
         case sstage g of
           AtNodeCh \<Rightarrow>
             if \<not> valid_idx (nodesCh s) (sto g) then Panic IndexOutOfRange
             else
               (case nodesCh s ! nat (sto g) of
                  Select dl c \<Rightarrow>
                    (let e = NewLogEntry (clock s) (simulationStart s) (sfrom g) (sto g);
                         s1 = s\<lparr>senders := (senders s)[k := g\<lparr>sstage := AtReportCh e\<rparr>]\<rparr>
                     in case runNode_message c (smessage g) of
                          (c', Duplicate) \<Rightarrow> Next s1
                        | (c', Exhausted) \<Rightarrow>
                            wgDone (s1\<lparr>nodesCh := (nodesCh s)[nat (sto g) := Exited]\<rparr>)
                        | (c', Forward m') \<Rightarrow>
                            Next (s1\<lparr>nodesCh := (nodesCh s)
                                    [nat (sto g) := Sleeping dl c' (clock s + delay s) m']\<rparr>))
                | _ \<Rightarrow> Blocked)
         | _ \<Rightarrow> Blocked)
      else Blocked)"

text \<open>The actor's \<open>time.Sleep(s.delay)\<close> is over: it spawns the senders and loops.\<close>

definition runNode_propagate :: "Simulator \<Rightarrow> int \<Rightarrow> outcome" where
  "runNode_propagate s i =
     (if valid_idx (nodesCh s) i then
        (case nodesCh s ! nat i of
           Sleeping dl c w m \<Rightarrow>
             if w \<le> clock s then
               Next (s\<lparr>nodesCh := (nodesCh s)[nat i := Select dl c],
                        senders := senders s @ propagateMessage s i m\<rparr>)
             else Blocked
         | _ \<Rightarrow> Blocked)
      else Blocked)"

text \<open>The timer branch of the select: \<open>case <-t.C: return\<close>.\<close>

definition runNode_timeout :: "Simulator \<Rightarrow> int \<Rightarrow> outcome" where
  "runNode_timeout s i =
     (if valid_idx (nodesCh s) i then
        (case nodesCh s ! nat i of
           Select dl c \<Rightarrow>
             if dl \<le> clock s then wgDone (s\<lparr>nodesCh := (nodesCh s)[nat i := Exited]\<rparr>)
             else Blocked
         | _ \<Rightarrow> Blocked)
      else Blocked)"

text \<open>
  \<open>SendMessage(startNodeIdx, ttl)\<close> up to the sleep of its \<open>propagateMessage\<close>. Nothing
  is checked.
\<close>

definition SendMessage_call :: "Simulator \<Rightarrow> int \<Rightarrow> 64 word \<Rightarrow> outcome" where
  "SendMessage_call s startNodeIdx ttl =
     (let message = \<lparr>Content = ''dummy'', TTL = ttl\<rparr>;
          s1 = s\<lparr>simulationStart := clock s,
                 caller := InDelay (clock s + delay s) startNodeIdx message\<rparr>
      in case caller s of
           NotCalled \<Rightarrow> Next s1
         | Returned ret \<Rightarrow> Next s1
         | _ \<Rightarrow> Blocked)"

text \<open>The caller's sleep is over: it spawns the seed's senders and enters its loop.\<close>

definition SendMessage_propagate :: "Simulator \<Rightarrow> outcome" where
  "SendMessage_propagate s =
     (case caller s of
        InDelay w from message \<Rightarrow>
          if w \<le> clock s then
            Next (s\<lparr>senders := senders s @ propagateMessage s from message,
                     caller := Collecting []\<rparr>)
          else Blocked
      | _ \<Rightarrow> Blocked)"

text \<open>The rendezvous on \<open>s.reportCh\<close>: \<open>ret = append(ret, &val)\<close>.\<close>

definition sendMessage_report :: "Simulator \<Rightarrow> nat \<Rightarrow> outcome" where
  "sendMessage_report s k =
     (if k < length (senders s) then
        (case (sstage (senders s ! k), caller s) of
           (AtReportCh e, Collecting ret) \<Rightarrow>
             Next (s\<lparr>senders := (senders s)[k := (senders s ! k)\<lparr>sstage := Finished\<rparr>],
                      caller := Collecting (ret @ [e])\<rparr>)
         | _ \<Rightarrow> Blocked)
      else Blocked)"

text \<open>
  \<open>s.wg.Wait()\<close> returns at counter zero and the caller takes the \<open>done\<close> branch.
\<close>

definition SendMessage_done :: "Simulator \<Rightarrow> outcome" where
  "SendMessage_done s =
     (case caller s of
        Collecting ret \<Rightarrow> if wg s = 0 then Next (s\<lparr>caller := Returned ret\<rparr>) else Blocked
      | _ \<Rightarrow> Blocked)"

datatype action =
    Tick int
  | Boot int
  | Recv nat
  | Wake int
  | Expire int
  | Call int "64 word"
  | MainWake
  | Report nat
  | Done

fun step :: "Simulator \<Rightarrow> action \<Rightarrow> outcome" where
  "step s (Tick d) = advance s d"
| "step s (Boot i) = runNode_start s i"
| "step s (Recv k) = sendMessage_deliver s k"
| "step s (Wake i) = runNode_propagate s i"
| "step s (Expire i) = runNode_timeout s i"
| "step s (Call startNodeIdx ttl) = SendMessage_call s startNodeIdx ttl"
| "step s MainWake = SendMessage_propagate s"
| "step s (Report k) = sendMessage_report s k"
| "step s Done = SendMessage_done s"

fun run :: "Simulator \<Rightarrow> action list \<Rightarrow> outcome" where
  "run s [] = Next s"
| "run s (a # as) =
     (case step s a of
        Next s' \<Rightarrow> run s' as
      | Panic e \<Rightarrow> Panic e
      | Blocked \<Rightarrow> Blocked)"

text \<open>
  \<open>NewSimulator(data, N, delay)\<close> at time \<open>t0\<close>. \<open>PrecalculatePeers\<close> is defined outside
  the given sources: its result is the parameter \<open>table\<close>.
\<close>

definition NewSimulator :: "Graph \<Rightarrow> (int \<rightharpoonup> int list) \<Rightarrow> int \<Rightarrow> int \<Rightarrow> int \<Rightarrow> Simulator" where
  "NewSimulator g table N d t0 =
     \<lparr>data = g, delay = d, peers = table,
      nodesCh = replicate (length (node_ids g)) Created,
      peersToSendTo = N, wg = int (length (node_ids g)),
      simulationStart = 0, clock = t0, senders = [], caller = NotCalled\<rparr>"


subsection \<open>Observations on runs\<close>

text \<open>
  In the step from \<open>s\<close> to \<open>s'\<close> the actor of node \<open>i\<close> leaves its select for
  \<open>propagateMessage\<close> with a message of content \<open>c\<close>: node \<open>i\<close> forwards \<open>c\<close>.
\<close>

definition forwards :: "int \<Rightarrow> string \<Rightarrow> Simulator \<Rightarrow> Simulator \<Rightarrow> bool" where
  "forwards i c s s' =
     (valid_idx (nodesCh s) i \<and>
      (case (nodesCh s ! nat i, nodesCh s' ! nat i) of
         (Select dl ca, Sleeping dl' ca' w m) \<Rightarrow> Content m = c
       | _ \<Rightarrow> False))"

text \<open>How often node \<open>i\<close> forwards content \<open>c\<close> along the run of a schedule.\<close>

fun fwd_count :: "int \<Rightarrow> string \<Rightarrow> Simulator \<Rightarrow> action list \<Rightarrow> nat" where
  "fwd_count i c s [] = 0"
| "fwd_count i c s (a # as) =
     (case step s a of
        Next s' \<Rightarrow> (if forwards i c s s' then 1 else 0) + fwd_count i c s' as
      | _ \<Rightarrow> 0)"

text \<open>The actor of node \<open>i\<close> is alive and has not recorded content \<open>c\<close>.\<close>

definition may_forward :: "int \<Rightarrow> string \<Rightarrow> Simulator \<Rightarrow> bool" where
  "may_forward i c s =
     (valid_idx (nodesCh s) i \<and>
      (case nodesCh s ! nat i of
         Created \<Rightarrow> True
       | Select dl ca \<Rightarrow> \<not> cached ca c
       | Sleeping dl ca w m \<Rightarrow> \<not> cached ca c
       | Exited \<Rightarrow> False))"

text \<open>Two nodes joined by one link, the smallest network with a loop back to the start.\<close>

definition pair_graph :: Graph where
  "pair_graph = \<lparr>node_ids = [''a'', ''b''], link_list = [(0, 1)]\<rparr>"

definition pair_table :: "int \<rightharpoonup> int list" where
  "pair_table = [0 \<mapsto> [1], 1 \<mapsto> [0]]"

subsection \<open>Invariants of the reachable states\<close>

definition alive :: "actor \<Rightarrow> bool" where
  "alive a = (a \<noteq> Exited)"

text \<open>The deadline of the actor's timer, once the timer exists.\<close>

definition deadline :: "actor \<Rightarrow> int option" where
  "deadline a = (case a of Select dl c \<Rightarrow> Some dl | Sleeping dl c w m \<Rightarrow> Some dl | _ \<Rightarrow> None)"

text \<open>The wait group counts the actors that have not returned.\<close>

definition wg_counts :: "Simulator \<Rightarrow> bool" where
  "wg_counts s = (wg s = int (length (filter alive (nodesCh s))))"

subsection \<open>Results and example networks\<close>

text \<open>What the caller of \<open>SendMessage\<close> got back, if the run ended with its return.\<close>

definition result :: "outcome \<Rightarrow> LogEntry list option" where
  "result r =
     (case r of
        Next s \<Rightarrow> (case caller s of Returned ret \<Rightarrow> Some ret | _ \<Rightarrow> None)
      | _ \<Rightarrow> None)"

text \<open>Two nodes joined by two parallel links: each is listed twice as the other's peer.\<close>

definition twin_graph :: Graph where
  "twin_graph = \<lparr>node_ids = [''a'', ''b''], link_list = [(0, 1), (0, 1)]\<rparr>"

definition twin_table :: "int \<rightharpoonup> int list" where
  "twin_table = [0 \<mapsto> [1, 1], 1 \<mapsto> [0, 0]]"

text \<open>The actor of node \<open>i\<close> has returned or its timer has deadline \<open>dl\<close>.\<close>

definition timer_set :: "int \<Rightarrow> int \<Rightarrow> Simulator \<Rightarrow> bool" where
  "timer_set i dl s =
     (valid_idx (nodesCh s) i \<and>
      (nodesCh s ! nat i = Exited \<or> deadline (nodesCh s ! nat i) = Some dl))"

text \<open>
  Sender \<open>k\<close> waits at the channel of a node whose actor has returned: nobody will
  ever receive from that channel.
\<close>

definition stuck :: "nat \<Rightarrow> Simulator \<Rightarrow> bool" where
  "stuck k s =
     (k < length (senders s) \<and> sstage (senders s ! k) = AtNodeCh \<and>
      valid_idx (nodesCh s) (sto (senders s ! k)) \<and>
      nodesCh s ! nat (sto (senders s ! k)) = Exited)"

subsection \<open>The end of whisperv6.SendMessage\<close>

text \<open>
  The Whisper simulator implements the same interface. Its event loop runs against
  go-ethereum's simulated network, an external collaborator; what follows the loop is
  \<open>if subErr != nil { log.Fatal(...) }\<close>, \<open>if !hasEvents { log.Fatal(...) }\<close> and the
  return of the collected entries.
\<close>

datatype ended = FatalCollect | FatalNoEvents | Returns "LogEntry list"

definition whisperv6_SendMessage_end :: "bool \<Rightarrow> bool \<Rightarrow> LogEntry list \<Rightarrow> ended" where
  "whisperv6_SendMessage_end subErr hasEvents plog =
     (if subErr then FatalCollect else if \<not> hasEvents then FatalNoEvents else Returns plog)"

subsection \<open>Messages in transit\<close>

text \<open>The TTLs of the calls of \<open>SendMessage\<close> in a schedule.\<close>

fun call_ttls :: "action list \<Rightarrow> 64 word list" where
  "call_ttls [] = []"
| "call_ttls (Call startNodeIdx ttl # as) = ttl # call_ttls as"
| "call_ttls (a # as) = call_ttls as"

text \<open>
  \<open>P\<close> holds of every message in the system: in the frame of a sender, in an actor
  sleeping before its fan-out, in the caller sleeping before the seed's fan-out.
\<close>

definition all_messages :: "(Message \<Rightarrow> bool) \<Rightarrow> Simulator \<Rightarrow> bool" where
  "all_messages P s =
     ((\<forall>g \<in> set (senders s). P (smessage g)) \<and>
      (\<forall>a \<in> set (nodesCh s). case a of Sleeping dl c w m \<Rightarrow> P m | _ \<Rightarrow> True) \<and>
      (case caller s of InDelay w from m \<Rightarrow> P m | _ \<Rightarrow> True))"

text \<open>
  Sender \<open>g'\<close> can have been dispatched by the receiver of \<open>g\<close>: it starts where \<open>g\<close>
  ends and carries the same content with the TTL decremented once.
\<close>

definition linked :: "sender \<Rightarrow> sender \<Rightarrow> bool" where
  "linked g g' =
     (sfrom g' = sto g \<and> Content (smessage g') = Content (smessage g) \<and>
      TTL (smessage g') = TTL (smessage g) - 1)"

fun forwarding_chain :: "sender list \<Rightarrow> bool" where
  "forwarding_chain [] = True"
| "forwarding_chain [g] = True"
| "forwarding_chain (g # g' # gs) = (linked g g' \<and> forwarding_chain (g' # gs))"

text \<open>The TTL is positive and at most the TTL of a call.\<close>

definition budget :: "64 word list \<Rightarrow> Message \<Rightarrow> bool" where
  "budget ttls m = (0 < sint (TTL m) \<and> (\<exists>u \<in> set ttls. sint (TTL m) \<le> sint u))"

text \<open>
  The actor will not process content \<open>c\<close> (again): it has recorded \<open>c\<close> in its cache or
  it has returned.
\<close>

definition recorded :: "actor \<Rightarrow> string \<Rightarrow> bool" where
  "recorded a c =
     (case a of
        Created \<Rightarrow> False
      | Select dl ca \<Rightarrow> cached ca c
      | Sleeping dl ca w m \<Rightarrow> cached ca c
      | Exited \<Rightarrow> True)"

text \<open>The nodes whose actors will not process content \<open>c\<close>.\<close>

definition seen :: "Simulator \<Rightarrow> string \<Rightarrow> nat set" where
  "seen s c = {i. i < length (nodesCh s) \<and> recorded (nodesCh s ! i) c}"

text \<open>
  The message has the TTL of a call decremented \<open>h\<close> times, where \<open>h\<close> is at most the
  number of nodes that will not process its content again.
\<close>

definition spent :: "64 word list \<Rightarrow> Simulator \<Rightarrow> Message \<Rightarrow> bool" where
  "spent ttls s m =
     (\<exists>u \<in> set ttls. \<exists>h. h \<le> card (seen s (Content m)) \<and> TTL m = u - of_nat h)"

subsection \<open>A round with TTL 1\<close>

text \<open>The calls of \<open>SendMessage\<close> in a schedule, with their arguments.\<close>

fun calls :: "action list \<Rightarrow> (int \<times> 64 word) list" where
  "calls [] = []"
| "calls (Call startNodeIdx ttl # as) = (startNodeIdx, ttl) # calls as"
| "calls (a # as) = calls as"

text \<open>The sender has not yet handed its entry to the caller.\<close>

definition unfinished :: "sender \<Rightarrow> bool" where
  "unfinished g = (sstage g \<noteq> Finished)"

text \<open>
  The collected entries are first hops from \<open>start\<close>, and together with the senders
  that have not reported they are as many as \<open>start\<close> has peers.
\<close>

definition tally :: "int \<Rightarrow> Simulator \<Rightarrow> LogEntry list \<Rightarrow> bool" where
  "tally start s ret =
     ((\<forall>e \<in> set ret. From e = start \<and> To e \<in> set (peers_of s start)) \<and>
      length ret + length (filter unfinished (senders s)) = length (peers_of s start))"

text \<open>
  No actor is about to forward, every sender goes from \<open>start\<close> to one of its peers
  with TTL 1, and the caller's entries tally.
\<close>

definition first_hops :: "int \<Rightarrow> Simulator \<Rightarrow> bool" where
  "first_hops start s =
     ((\<forall>a \<in> set (nodesCh s). case a of Sleeping dl c w m \<Rightarrow> False | _ \<Rightarrow> True) \<and>
      (\<forall>g \<in> set (senders s).
         sfrom g = start \<and> sto g \<in> set (peers_of s start) \<and> TTL (smessage g) = 1 \<and>
         (case sstage g of AtReportCh e \<Rightarrow> From e = start \<and> To e = sto g | _ \<Rightarrow> True)) \<and>
      (case caller s of
         NotCalled \<Rightarrow> senders s = []
       | InDelay w from m \<Rightarrow> senders s = [] \<and> from = start \<and> TTL m = 1
       | Collecting ret \<Rightarrow> tally start s ret
       | Returned ret \<Rightarrow> tally start s ret))"

section \<open>Trace statistics (package stats)\<close>

text \<open>
  The type \<open>propagation.Log\<close> is declared outside the given sources; \<open>stats.go\<close> reads
  its fields \<open>Nodes\<close> and \<open>Indices\<close>, each a slice of slices of indices, one inner slice
  per time step. \<open>Nodes\<close> lists the nodes that the entries of the step reach,
  \<open>Indices\<close> the links they travel.
\<close>

record Log =
  Timestamps :: "int list"
  Indices :: "int list list"
  Nodes :: "int list list"

text \<open>
  \<open>g.NodeIDByIdx(j)\<close> of the external graph library: the identifier of the node at
  index \<open>j\<close>, or an error when there is no such node.
\<close>

definition NodeIDByIdx :: "Graph \<Rightarrow> int \<Rightarrow> string option" where
  "NodeIDByIdx g j = (if valid_idx (node_ids g) j then Some (node_ids g ! nat j) else None)"

text \<open>
  Modelled from the spec: \<open>Coverage\<close> and \<open>NewCoverage\<close> are declared outside the given
  sources; the spec describes a coverage as the pair of an actual and a total count.
\<close>

record Coverage =
  Actual :: int
  Total :: int

definition NewCoverage :: "int \<Rightarrow> int \<Rightarrow> Coverage" where
  "NewCoverage act tot = \<lparr>Actual = act, Total = tot\<rparr>"

text \<open>Reading \<open>nodeHits[id]\<close>: a missing key reads as zero.\<close>

definition hits :: "(string \<rightharpoonup> int) \<Rightarrow> string \<Rightarrow> int" where
  "hits h nid = (case h nid of None \<Rightarrow> 0 | Some n \<Rightarrow> n)"

text \<open>
  The inner loop of \<open>analyzeNodeHits\<close>: \<open>nodeHits[id]++\<close> for the identifier of every
  index, \<open>log.Fatal\<close> (here \<open>None\<close>) on an index without node. The counters cannot
  overflow, a slice holding fewer than \<open>2 ^ 63\<close> elements.
\<close>

fun hitNodes :: "Graph \<Rightarrow> int list \<Rightarrow> (string \<rightharpoonup> int) \<Rightarrow> (string \<rightharpoonup> int) option" where
  "hitNodes g [] h = Some h"
| "hitNodes g (j # js) h =
     (case NodeIDByIdx g j of
        None \<Rightarrow> None
      | Some nid \<Rightarrow> hitNodes g js (h(nid \<mapsto> hits h nid + 1)))"

text \<open>The outer loop, over the time steps.\<close>

fun hitSteps :: "Graph \<Rightarrow> int list list \<Rightarrow> (string \<rightharpoonup> int) \<Rightarrow> (string \<rightharpoonup> int) option" where
  "hitSteps g [] h = Some h"
| "hitSteps g (nodes # rest) h =
     (case hitNodes g nodes h of
        None \<Rightarrow> None
      | Some h' \<Rightarrow> hitSteps g rest h')"

text \<open>
  \<open>analyzeNodeHits\<close>, its first result. The histogram it also returns is built from the
  finished map by code outside the given sources and does not change the map.
\<close>

definition analyzeNodeHits :: "Graph \<Rightarrow> Log \<Rightarrow> (string \<rightharpoonup> int) option" where
  "analyzeNodeHits g plog = hitSteps g (Nodes plog) Map.empty"

definition analyzeNodeCoverage :: "Graph \<Rightarrow> (string \<rightharpoonup> int) \<Rightarrow> Coverage" where
  "analyzeNodeCoverage g nodeHits =
     NewCoverage (int (card (dom nodeHits))) (int (length (node_ids g)))"

definition analyzeLinkCoverage :: "Graph \<Rightarrow> Log \<Rightarrow> Coverage" where
  "analyzeLinkCoverage g plog =
     NewCoverage (int (card (set (concat (Indices plog))))) (int (length (link_list g)))"

text \<open>\<open>Stats\<close> without its histogram, and \<open>Analyze\<close>.\<close>

record Stats =
  NodeHits :: "string \<rightharpoonup> int"
  NodeCoverage :: Coverage
  LinkCoverage :: Coverage

definition Analyze :: "Graph \<Rightarrow> Log \<Rightarrow> Stats option" where
  "Analyze g plog =
     (case analyzeNodeHits g plog of
        None \<Rightarrow> None
      | Some nodeHits \<Rightarrow>
          Some \<lparr>NodeHits = nodeHits,
                NodeCoverage = analyzeNodeCoverage g nodeHits,
                LinkCoverage = analyzeLinkCoverage g plog\<rparr>)"

text \<open>The identifiers of the nodes that a list of indices names.\<close>

definition ids_hit :: "Graph \<Rightarrow> int list \<Rightarrow> string set" where
  "ids_hit g js = {nid. \<exists>j \<in> set js. NodeIDByIdx g j = Some nid}"

section \<open>The steps, case by case\<close>

lemma wgDoneE:
  assumes "wgDone s = Next s'"
  obtains "0 < wg s" "s' = s\<lparr>wg := wg s - 1\<rparr>"
  using assms by (auto simp: wgDone_def split: if_splits)

lemma step_TickE:
  assumes "advance s d = Next s'"
  obtains "0 \<le> d" "s' = s\<lparr>clock := clock s + d\<rparr>"
  using assms by (auto simp: advance_def split: if_splits)

lemma step_BootE:
  assumes "runNode_start s i = Next s'"
  obtains "valid_idx (nodesCh s) i" "nodesCh s ! nat i = Created"
    "s' = s\<lparr>nodesCh := (nodesCh s)[nat i := Select (clock s + 10 * second) Map.empty]\<rparr>"
  using assms by (auto simp: runNode_start_def split: if_splits actor.splits)

lemma step_RecvE:
  assumes "sendMessage_deliver s k = Next s'"
  obtains
    (Duplicate) dl c where
      "k < length (senders s)" "sstage (senders s ! k) = AtNodeCh"
      "valid_idx (nodesCh s) (sto (senders s ! k))"
      "nodesCh s ! nat (sto (senders s ! k)) = Select dl c"
      "cached c (Content (smessage (senders s ! k)))"
      "s' = s\<lparr>senders := (senders s)[k := (senders s ! k)\<lparr>sstage := AtReportCh
              (NewLogEntry (clock s) (simulationStart s) (sfrom (senders s ! k)) (sto (senders s ! k)))\<rparr>]\<rparr>"
  | (Exhausted) dl c where
      "k < length (senders s)" "sstage (senders s ! k) = AtNodeCh"
      "valid_idx (nodesCh s) (sto (senders s ! k))"
      "nodesCh s ! nat (sto (senders s ! k)) = Select dl c"
      "\<not> cached c (Content (smessage (senders s ! k)))"
      "TTL (smessage (senders s ! k)) - 1 = 0" "0 < wg s"
      "s' = s\<lparr>senders := (senders s)[k := (senders s ! k)\<lparr>sstage := AtReportCh
              (NewLogEntry (clock s) (simulationStart s) (sfrom (senders s ! k)) (sto (senders s ! k)))\<rparr>],
            nodesCh := (nodesCh s)[nat (sto (senders s ! k)) := Exited],
            wg := wg s - 1\<rparr>"
  | (Forward) dl c where
      "k < length (senders s)" "sstage (senders s ! k) = AtNodeCh"
      "valid_idx (nodesCh s) (sto (senders s ! k))"
      "nodesCh s ! nat (sto (senders s ! k)) = Select dl c"
      "\<not> cached c (Content (smessage (senders s ! k)))"
      "TTL (smessage (senders s ! k)) - 1 \<noteq> 0"
      "s' = s\<lparr>senders := (senders s)[k := (senders s ! k)\<lparr>sstage := AtReportCh
              (NewLogEntry (clock s) (simulationStart s) (sfrom (senders s ! k)) (sto (senders s ! k)))\<rparr>],
            nodesCh := (nodesCh s)[nat (sto (senders s ! k)) :=
              Sleeping dl (c(Content (smessage (senders s ! k)) \<mapsto> True)) (clock s + delay s)
                ((smessage (senders s ! k))\<lparr>TTL := TTL (smessage (senders s ! k)) - 1\<rparr>)]\<rparr>"
  using assms
  by (auto simp: sendMessage_deliver_def runNode_message_def wgDone_def Let_def
      split: if_splits stage.splits actor.splits)

lemma step_WakeE:
  assumes "runNode_propagate s i = Next s'"
  obtains dl c w m where "valid_idx (nodesCh s) i" "nodesCh s ! nat i = Sleeping dl c w m"
    "w \<le> clock s"
    "s' = s\<lparr>nodesCh := (nodesCh s)[nat i := Select dl c],
            senders := senders s @ propagateMessage s i m\<rparr>"
  using assms by (auto simp: runNode_propagate_def split: if_splits actor.splits)

lemma step_ExpireE:
  assumes "runNode_timeout s i = Next s'"
  obtains dl c where "valid_idx (nodesCh s) i" "nodesCh s ! nat i = Select dl c"
    "dl \<le> clock s" "0 < wg s"
    "s' = s\<lparr>nodesCh := (nodesCh s)[nat i := Exited], wg := wg s - 1\<rparr>"
  using assms by (auto simp: runNode_timeout_def wgDone_def split: if_splits actor.splits)

lemma step_CallE:
  assumes "SendMessage_call s st ttl = Next s'"
  obtains "caller s = NotCalled \<or> (\<exists>ret. caller s = Returned ret)"
    "s' = s\<lparr>simulationStart := clock s,
            caller := InDelay (clock s + delay s) st \<lparr>Content = ''dummy'', TTL = ttl\<rparr>\<rparr>"
  using assms by (auto simp: SendMessage_call_def Let_def split: caller.splits)

lemma step_MainWakeE:
  assumes "SendMessage_propagate s = Next s'"
  obtains w st m where "caller s = InDelay w st m" "w \<le> clock s"
    "s' = s\<lparr>senders := senders s @ propagateMessage s st m, caller := Collecting []\<rparr>"
  using assms by (auto simp: SendMessage_propagate_def split: caller.splits if_splits)

lemma step_ReportE:
  assumes "sendMessage_report s k = Next s'"
  obtains e ret where "k < length (senders s)" "sstage (senders s ! k) = AtReportCh e"
    "caller s = Collecting ret"
    "s' = s\<lparr>senders := (senders s)[k := (senders s ! k)\<lparr>sstage := Finished\<rparr>],
            caller := Collecting (ret @ [e])\<rparr>"
  using assms by (auto simp: sendMessage_report_def split: if_splits stage.splits caller.splits)

lemma step_DoneE:
  assumes "SendMessage_done s = Next s'"
  obtains ret where "caller s = Collecting ret" "wg s = 0" "s' = s\<lparr>caller := Returned ret\<rparr>"
  using assms by (auto simp: SendMessage_done_def split: caller.splits if_splits)

lemmas stepE = step_TickE step_BootE step_RecvE step_WakeE step_ExpireE step_CallE
  step_MainWakeE step_ReportE step_DoneE

section \<open>Fan-out\<close>





section \<open>Duplicate suppression\<close>

lemma forwards_once:
  assumes "step s a = Next s'" "forwards i c s s'"
  shows "may_forward i c s \<and> \<not> may_forward i c s'"
proof (cases a)
  case (Recv k)
  with assms show ?thesis
    by (auto elim!: step_RecvE simp: forwards_def may_forward_def cached_def valid_idx_def
        nth_list_update split: actor.splits if_splits)
qed (use assms in \<open>auto elim!: stepE simp: forwards_def valid_idx_def nth_list_update
        split: actor.splits if_splits\<close>)

lemma may_forward_antimono:
  assumes "step s a = Next s'" "may_forward i c s'"
  shows "may_forward i c s"
proof (cases a)
  case (Recv k)
  with assms show ?thesis
    by (auto elim!: step_RecvE simp: may_forward_def cached_def valid_idx_def
        nth_list_update split: actor.splits if_splits)
qed (use assms in \<open>auto elim!: stepE simp: may_forward_def valid_idx_def nth_list_update
        split: actor.splits if_splits\<close>)

lemma fwd_count_bound: "fwd_count i c s as \<le> (if may_forward i c s then 1 else 0)"
proof (induction as arbitrary: s)
  case Nil
  show ?case by simp
next
  case (Cons a as)
  show ?case
  proof (cases "step s a")
    case (Next s')
    show ?thesis
    proof (cases "forwards i c s s'")
      case True
      from forwards_once [OF Next True] Cons.IH [of s'] Next True show ?thesis by simp
    next
      case False
      from may_forward_antimono [OF Next] Cons.IH [of s'] Next False show ?thesis
        by (auto split: if_splits)
    qed
  qed simp_all
qed

text \<open>
  C1. Along every run, from any state and under any schedule, the actor of a node enters
  \<open>propagateMessage\<close> with a given content at most once, however many copies of that
  content are delivered to it: the first receipt records the content in the actor's
  cache and every later copy takes the \<open>continue\<close> branch. Only forwards by \<open>runNode\<close>
  are counted; the seed fan-out that \<open>SendMessage\<close> performs for the start node is not
  a receipt and records nothing in the start node's cache.
\<close>

theorem C1_forwards_content_at_most_once:
  "fwd_count i c s as \<le> 1"
  using fwd_count_bound [of i c s as] by (simp split: if_splits)

lemmas eval_defs = advance_def runNode_start_def sendMessage_deliver_def runNode_propagate_def
  runNode_timeout_def SendMessage_call_def SendMessage_propagate_def sendMessage_report_def
  SendMessage_done_def wgDone_def NewSimulator_def valid_idx_def cached_def peers_of_def
  propagateMessage_def runNode_message_def NewLogEntry_def second_def Let_def

theorem C1_witness:
  "fwd_count 1 ''dummy'' (NewSimulator pair_graph pair_table 4 10 0)
     [Boot 0, Boot 1, Call 0 3, Tick 10, MainWake, Recv 0, Tick 10, Wake 1, Recv 1, Tick 10,
      Wake 0, Recv 2] = 1"
  using C1_forwards_content_at_most_once [of 1 "''dummy''"
      "NewSimulator pair_graph pair_table 4 10 0"
      "[Boot 0, Boot 1, Call 0 3, Tick 10, MainWake, Recv 0, Tick 10, Wake 1, Recv 1, Tick 10,
        Wake 0, Recv 2]"]
  by (simp add: eval_defs forwards_def pair_graph_def pair_table_def)

section \<open>Runs and invariants\<close>

lemma run_ConsE:
  assumes "run s (a # as) = Next s'"
  obtains y where "step s a = Next y" "run y as = Next s'"
  using assms by (cases "step s a") simp_all

lemma run_invariant:
  assumes "run s as = Next s'" and "P s"
    and "\<And>x a y. P x \<Longrightarrow> a \<in> set as \<Longrightarrow> step x a = Next y \<Longrightarrow> P y"
  shows "P s'"
  using assms
proof (induction as arbitrary: s)
  case Nil
  then show ?case by simp
next
  case (Cons a as)
  from Cons.prems(1) obtain y where y: "step s a = Next y" "run y as = Next s'"
    by (rule run_ConsE)
  have Py: "P y" by (rule Cons.prems(3) [OF Cons.prems(2) _ y(1)]) simp
  show ?case
  proof (rule Cons.IH [OF y(2) Py])
    fix x b z
    assume "P x" "b \<in> set as" "step x b = Next z"
    then show "P z" using Cons.prems(3) [of x b z] by simp
  qed
qed

lemma run_append:
  "run s (as @ bs) =
     (case run s as of Next s' \<Rightarrow> run s' bs | Panic e \<Rightarrow> Panic e | Blocked \<Rightarrow> Blocked)"
proof (induction as arbitrary: s)
  case Nil
  show ?case by simp
next
  case (Cons a as)
  show ?case by (cases "step s a") (simp_all add: Cons.IH)
qed

lemma filter_alive_exit:
  "i < length xs \<Longrightarrow> alive (xs ! i) \<Longrightarrow>
     Suc (length (filter alive (xs[i := Exited]))) = length (filter alive xs)"
proof (induction xs arbitrary: i)
  case Nil
  then show ?case by simp
next
  case (Cons x xs)
  then show ?case by (cases i) (auto simp: alive_def)
qed

lemma filter_alive_same:
  "i < length xs \<Longrightarrow> alive (xs ! i) = alive y \<Longrightarrow>
     length (filter alive (xs[i := y])) = length (filter alive xs)"
proof (induction xs arbitrary: i)
  case Nil
  then show ?case by simp
next
  case (Cons x xs)
  then show ?case by (cases i) auto
qed

lemma filter_alive_exit_int:
  assumes "valid_idx xs i" "alive (xs ! nat i)"
  shows "int (length (filter alive (xs[nat i := Exited]))) = int (length (filter alive xs)) - 1"
proof -
  have "nat i < length xs" using assms(1) by (auto simp: valid_idx_def)
  from filter_alive_exit [OF this assms(2)] show ?thesis by linarith
qed

lemma filter_alive_same_int:
  assumes "valid_idx xs i" "alive (xs ! nat i)" "alive y"
  shows "length (filter alive (xs[nat i := y])) = length (filter alive xs)"
proof -
  have "nat i < length xs" using assms(1) by (auto simp: valid_idx_def)
  then show ?thesis using assms(2,3) by (simp add: filter_alive_same)
qed

lemma step_wg_counts:
  assumes "step s a = Next s'" "wg_counts s"
  shows "wg_counts s'"
proof (cases a)
  case (Tick d)
  with assms show ?thesis by (auto elim!: step_TickE simp: wg_counts_def)
next
  case (Boot i)
  with assms show ?thesis
    by (auto elim!: step_BootE simp: wg_counts_def filter_alive_same_int alive_def)
next
  case (Recv k)
  with assms have "sendMessage_deliver s k = Next s'" by simp
  then show ?thesis
  proof (cases rule: step_RecvE)
    case (Duplicate dl c)
    with assms(2) show ?thesis by (simp add: wg_counts_def)
  next
    case (Exhausted dl c)
    with assms(2) show ?thesis
      by (simp add: wg_counts_def filter_alive_exit_int alive_def)
  next
    case (Forward dl c)
    with assms(2) show ?thesis
      by (simp add: wg_counts_def filter_alive_same_int alive_def)
  qed
next
  case (Wake i)
  with assms show ?thesis
    by (auto elim!: step_WakeE simp: wg_counts_def filter_alive_same_int alive_def)
next
  case (Expire i)
  with assms show ?thesis
    by (auto elim!: step_ExpireE simp: wg_counts_def filter_alive_exit_int alive_def)
next
  case (Call st ttl)
  with assms show ?thesis by (auto elim!: step_CallE simp: wg_counts_def)
next
  case MainWake
  with assms show ?thesis by (auto elim!: step_MainWakeE simp: wg_counts_def)
next
  case (Report k)
  with assms show ?thesis by (auto elim!: step_ReportE simp: wg_counts_def)
next
  case Done
  with assms show ?thesis by (auto elim!: step_DoneE simp: wg_counts_def)
qed

lemma NewSimulator_wg_counts: "wg_counts (NewSimulator g table N d t0)"
  by (simp add: wg_counts_def NewSimulator_def alive_def)

lemma reach_wg_counts:
  "run (NewSimulator g table N d t0) as = Next s \<Longrightarrow> wg_counts s"
  by (erule run_invariant [where P = wg_counts]) (auto intro: NewSimulator_wg_counts step_wg_counts)

lemma wg_pos:
  assumes "wg_counts s" "valid_idx (nodesCh s) i" "alive (nodesCh s ! nat i)"
  shows "0 < wg s"
proof -
  have "nodesCh s ! nat i \<in> set (filter alive (nodesCh s))"
    using assms by (auto simp: valid_idx_def)
  then have "filter alive (nodesCh s) \<noteq> []" by (metis empty_iff empty_set)
  with assms(1) show ?thesis by (simp add: wg_counts_def)
qed

section \<open>The idle timer\<close>

lemma step_length_nodesCh:
  assumes "step s a = Next s'"
  shows "length (nodesCh s') = length (nodesCh s)"
  using assms by (cases a) (auto elim!: stepE)

lemma step_exited:
  assumes "step s a = Next s'" "valid_idx (nodesCh s) i" "nodesCh s ! nat i = Exited"
  shows "nodesCh s' ! nat i = Exited"
  using assms by (cases a) (auto elim!: stepE simp: valid_idx_def nth_list_update)

lemma step_deadline:
  assumes "step s a = Next s'" "valid_idx (nodesCh s) i"
    "deadline (nodesCh s ! nat i) = Some dl"
  shows "nodesCh s' ! nat i = Exited \<or> deadline (nodesCh s' ! nat i) = Some dl"
  using assms
  by (cases a) (auto elim!: stepE simp: valid_idx_def nth_list_update deadline_def)

lemma step_timer_set:
  assumes "step s a = Next s'" "timer_set i dl s"
  shows "timer_set i dl s'"
proof -
  from assms(2) have v: "valid_idx (nodesCh s) i" by (simp add: timer_set_def)
  then have v': "valid_idx (nodesCh s') i"
    using step_length_nodesCh [OF assms(1)] by (simp add: valid_idx_def)
  from assms(2) consider "nodesCh s ! nat i = Exited" | "deadline (nodesCh s ! nat i) = Some dl"
    by (auto simp: timer_set_def)
  then show ?thesis
  proof cases
    case 1
    from step_exited [OF assms(1) v 1] v' show ?thesis by (simp add: timer_set_def)
  next
    case 2
    from step_deadline [OF assms(1) v 2] v' show ?thesis by (simp add: timer_set_def)
  qed
qed

lemma timeout_enabled:
  assumes "valid_idx (nodesCh s) i" "nodesCh s ! nat i = Select dl c" "dl \<le> clock s" "0 < wg s"
  shows "step s (Expire i) = Next (s\<lparr>nodesCh := (nodesCh s)[nat i := Exited], wg := wg s - 1\<rparr>)"
  using assms by (simp add: runNode_timeout_def wgDone_def)

text \<open>
  C9. The timer of an actor is created once, when the actor starts, with the deadline
  ten seconds later, and no step resets it: whatever happens after the start, message
  receipts included, the actor has returned or its deadline is still the one set at the
  start. So from ten seconds after the start on, whenever the actor is in its select,
  the timer branch is enabled and the actor may return, no matter how recently it
  received a message.
\<close>

theorem C9_timer_created_once_never_reset:
  assumes "run (NewSimulator g table N d t0) as0 = Next s0"
    and "step s0 (Boot i) = Next s1"
    and "run s1 as = Next s"
  shows "(nodesCh s ! nat i = Exited
            \<or> deadline (nodesCh s ! nat i) = Some (clock s0 + 10 * second))
       \<and> (\<forall>dl c. nodesCh s ! nat i = Select dl c \<and> clock s0 + 10 * second \<le> clock s
             \<longrightarrow> step s (Expire i)
                   = Next (s\<lparr>nodesCh := (nodesCh s)[nat i := Exited], wg := wg s - 1\<rparr>))"
proof -
  let ?D = "clock s0 + 10 * second"
  from assms(2) have "timer_set i ?D s1"
    by (auto elim!: step_BootE simp: timer_set_def deadline_def valid_idx_def)
  with assms(3) have ts: "timer_set i ?D s"
    by (rule run_invariant) (rule step_timer_set)
  have "run (NewSimulator g table N d t0) (as0 @ Boot i # as) = Next s"
    using assms by (simp add: run_append)
  then have wgc: "wg_counts s" by (rule reach_wg_counts)
  have "step s (Expire i)
          = Next (s\<lparr>nodesCh := (nodesCh s)[nat i := Exited], wg := wg s - 1\<rparr>)"
    if sel: "nodesCh s ! nat i = Select dl c" and late: "?D \<le> clock s" for dl c
  proof -
    from ts have v: "valid_idx (nodesCh s) i" by (simp add: timer_set_def)
    from ts sel have "dl = ?D" by (simp add: timer_set_def deadline_def)
    with late have "dl \<le> clock s" by simp
    moreover have "0 < wg s" using wgc v sel by (auto intro: wg_pos simp: alive_def)
    ultimately show ?thesis using v sel by (rule_tac timeout_enabled)
  qed
  with ts show ?thesis by (auto simp: timer_set_def)
qed

lemmas example_defs = pair_graph_def pair_table_def twin_graph_def twin_table_def result_def

theorem C9_witness:
  "\<exists>s1 s. step (NewSimulator twin_graph twin_table 4 10 0) (Boot 1) = Next s1
     \<and> run s1 [Boot 0, Call 0 3, Tick 10, MainWake, Recv 0, Tick 10, Wake 1,
               Tick (10 * second), Recv 1] = Next s
     \<and> nodesCh s ! 1 = Select (10 * second) [''dummy'' \<mapsto> True]
     \<and> sstage (senders s ! 1) = AtReportCh \<lparr>Ts = 10 * second + 20, From = 0, To = 1\<rparr>
     \<and> clock s = 10 * second + 20
     \<and> step s (Expire 1) = Next (s\<lparr>nodesCh := (nodesCh s)[1 := Exited], wg := wg s - 1\<rparr>)"
proof -
  let ?s0 = "NewSimulator twin_graph twin_table 4 10 0"
  let ?as = "[Boot 0, Call 0 3, Tick 10, MainWake, Recv 0, Tick 10, Wake 1,
       Tick (10 * second), Recv 1]"
  have "\<exists>s1 s. step ?s0 (Boot 1) = Next s1 \<and> run s1 ?as = Next s
     \<and> nodesCh s ! 1 = Select (10 * second) [''dummy'' \<mapsto> True]
     \<and> sstage (senders s ! 1) = AtReportCh \<lparr>Ts = 10 * second + 20, From = 0, To = 1\<rparr>
     \<and> clock s = 10 * second + 20"
    by (simp add: eval_defs example_defs)
  then obtain s1 s where s1: "step ?s0 (Boot 1) = Next s1" and s: "run s1 ?as = Next s"
    and sel: "nodesCh s ! 1 = Select (10 * second) [''dummy'' \<mapsto> True]"
    and rep: "sstage (senders s ! 1) = AtReportCh \<lparr>Ts = 10 * second + 20, From = 0, To = 1\<rparr>"
    and clk: "clock s = 10 * second + 20"
    by blast
  have r0: "run ?s0 [] = Next ?s0" by simp
  have c0: "clock ?s0 = 0" by (simp add: NewSimulator_def)
  from C9_timer_created_once_never_reset [OF r0 s1 s] sel clk c0
  have "step s (Expire 1) = Next (s\<lparr>nodesCh := (nodesCh s)[1 := Exited], wg := wg s - 1\<rparr>)"
    by (simp add: second_def)
  with s1 s sel rep clk show ?thesis by blast
qed

section \<open>Configuration is not validated\<close>




section \<open>Log entries\<close>

lemma step_stuck:
  assumes "step s a = Next s'" "stuck k s"
  shows "stuck k s' \<and> senders s' ! k = senders s ! k"
  using assms
  by (cases a)
     (auto elim!: stepE simp: stuck_def valid_idx_def nth_list_update nth_append)

lemma run_stuck:
  assumes "run s bs = Next s'" "stuck k s"
  shows "stuck k s' \<and> senders s' ! k = senders s ! k"
  using assms
proof (induction bs arbitrary: s)
  case Nil
  then show ?case by simp
next
  case (Cons a bs)
  from Cons.prems(1) obtain y where y: "step s a = Next y" "run y bs = Next s'"
    by (rule run_ConsE)
  from step_stuck [OF y(1) Cons.prems(2)] Cons.IH [OF y(2)] show ?case by simp
qed

lemma entry_created_by_delivery:
  assumes "step s a = Next s'" "j < length (senders s')"
    "sstage (senders s' ! j) = AtReportCh e"
  shows "(j < length (senders s) \<and> sstage (senders s ! j) = AtReportCh e)
       \<or> (a = Recv j \<and> j < length (senders s) \<and> sstage (senders s ! j) = AtNodeCh \<and>
           e = NewLogEntry (clock s) (simulationStart s)
                 (sfrom (senders s ! j)) (sto (senders s ! j)))"
  using assms
  by (cases a)
     (auto elim!: stepE simp: nth_list_update nth_append propagateMessage_def
        split: if_splits)

lemma delivery_enabled:
  assumes "k < length (senders s)"
    and "senders s ! k = \<lparr>sfrom = f, sto = t, smessage = m, sstage = AtNodeCh\<rparr>"
    and "valid_idx (nodesCh s) t" and "nodesCh s ! nat t = Select dl c" and "0 < wg s"
  shows "\<exists>s'. step s (Recv k) = Next s' \<and> caller s' = caller s \<and>
           senders s' = (senders s)[k := \<lparr>sfrom = f, sto = t, smessage = m,
              sstage = AtReportCh \<lparr>Ts = clock s - simulationStart s, From = f, To = t\<rparr>\<rparr>]"
  using assms
  by (simp add: sendMessage_deliver_def runNode_message_def wgDone_def NewLogEntry_def Let_def)

lemma delivery_blocked:
  assumes "k < length (senders s)"
    and "valid_idx (nodesCh s) (sto (senders s ! k))"
    and "\<forall>dl c. nodesCh s ! nat (sto (senders s ! k)) \<noteq> Select dl c"
  shows "step s (Recv k) = Blocked"
  using assms
  by (simp add: sendMessage_deliver_def Let_def split: stage.splits actor.splits)

text \<open>
  C7, as the code has it. \<open>sendMessage\<close> creates its log entry after the send on the
  peer's channel has completed, and the channel is unbuffered. So for a sender from \<open>f\<close>
  to \<open>t\<close>: when the actor of \<open>t\<close> is in its select the hand-off takes place and exactly
  one entry with the time since the start of the run, \<open>f\<close> and \<open>t\<close> is created, whatever
  the actor's cache holds, that is, whether it treats the message as a duplicate or not;
  as long as the actor is not in its select the sender is blocked; and when the actor
  has returned the sender stays blocked in every continuation and never creates an
  entry. Entries are created by no other step.
\<close>

theorem C7_entry_on_completed_handoff:
  assumes "run (NewSimulator g table N d t0) as = Next s"
    and "k < length (senders s)"
    and "senders s ! k = \<lparr>sfrom = f, sto = t, smessage = m, sstage = AtNodeCh\<rparr>"
    and "valid_idx (nodesCh s) t"
  shows "(\<forall>dl c. nodesCh s ! nat t = Select dl c \<longrightarrow>
            (\<exists>s'. step s (Recv k) = Next s' \<and> caller s' = caller s \<and>
               senders s' = (senders s)[k := \<lparr>sfrom = f, sto = t, smessage = m,
                 sstage = AtReportCh \<lparr>Ts = clock s - simulationStart s, From = f, To = t\<rparr>\<rparr>]))
       \<and> ((\<forall>dl c. nodesCh s ! nat t \<noteq> Select dl c) \<longrightarrow> step s (Recv k) = Blocked)
       \<and> (nodesCh s ! nat t = Exited \<longrightarrow>
            (\<forall>bs s'. run s bs = Next s' \<longrightarrow> senders s' ! k = senders s ! k))
       \<and> (\<forall>a s' j e. step s a = Next s' \<and> j < length (senders s') \<and>
              sstage (senders s' ! j) = AtReportCh e \<longrightarrow>
            (j < length (senders s) \<and> sstage (senders s ! j) = AtReportCh e)
            \<or> (a = Recv j \<and> sstage (senders s ! j) = AtNodeCh \<and>
                e = NewLogEntry (clock s) (simulationStart s)
                      (sfrom (senders s ! j)) (sto (senders s ! j))))"
proof (intro conjI allI impI)
  fix dl c
  assume sel: "nodesCh s ! nat t = Select dl c"
  have "wg_counts s" using assms(1) by (rule reach_wg_counts)
  then have "0 < wg s" using assms(4) sel by (auto intro: wg_pos simp: alive_def)
  with assms(2,3,4) sel
  show "\<exists>s'. step s (Recv k) = Next s' \<and> caller s' = caller s \<and>
          senders s' = (senders s)[k := \<lparr>sfrom = f, sto = t, smessage = m,
            sstage = AtReportCh \<lparr>Ts = clock s - simulationStart s, From = f, To = t\<rparr>\<rparr>]"
    by (rule delivery_enabled)
next
  assume "\<forall>dl c. nodesCh s ! nat t \<noteq> Select dl c"
  with assms(2,3,4) show "step s (Recv k) = Blocked"
    by (intro delivery_blocked) simp_all
next
  fix bs s'
  assume ex: "nodesCh s ! nat t = Exited" and r: "run s bs = Next s'"
  from assms(2,3,4) ex have "stuck k s" by (simp add: stuck_def)
  with r show "senders s' ! k = senders s ! k" by (simp add: run_stuck)
next
  fix a s' j e
  assume "step s a = Next s' \<and> j < length (senders s') \<and>
     sstage (senders s' ! j) = AtReportCh e"
  then show "(j < length (senders s) \<and> sstage (senders s ! j) = AtReportCh e)
            \<or> (a = Recv j \<and> sstage (senders s ! j) = AtNodeCh \<and>
                e = NewLogEntry (clock s) (simulationStart s)
                      (sfrom (senders s ! j)) (sto (senders s ! j)))"
    using entry_created_by_delivery [of s a s' j e] by blast
qed

text \<open>
  On the network with two parallel links and TTL 1 the start node dispatches two
  senders to node 1. The first is received, node 1 returns on the exhausted TTL, and
  the second stays blocked: \<open>SendMessage\<close> returns one entry for two dispatches.
\<close>

theorem C7_counterexample:
  "(case run (NewSimulator twin_graph twin_table 4 10 0)
      [Boot 0, Boot 1, Call 0 1, Tick 10, MainWake, Recv 0, Report 0, Tick (10 * second),
       Expire 0, Done] of
      Next s \<Rightarrow>
        caller s = Returned [\<lparr>Ts = 10, From = 0, To = 1\<rparr>]
        \<and> map sfrom (senders s) = [0, 0] \<and> map sto (senders s) = [1, 1]
        \<and> map sstage (senders s) = [Finished, AtNodeCh]
        \<and> nodesCh s = [Exited, Exited]
        \<and> step s (Recv 1) = Blocked
    | _ \<Rightarrow> False)"
  by (simp add: eval_defs example_defs)

theorem C7_witness:
  "\<exists>s s'. run (NewSimulator twin_graph twin_table 4 10 0)
       [Boot 0, Boot 1, Call 0 3, Tick 10, MainWake, Recv 0, Tick 10, Wake 1] = Next s
     \<and> nodesCh s ! 1 = Select (10 * second) [''dummy'' \<mapsto> True]
     \<and> senders s ! 1 = \<lparr>sfrom = 0, sto = 1, smessage = \<lparr>Content = ''dummy'', TTL = 3\<rparr>,
                          sstage = AtNodeCh\<rparr>
     \<and> step s (Recv 1) = Next s'
     \<and> senders s' = (senders s)[1 := \<lparr>sfrom = 0, sto = 1,
            smessage = \<lparr>Content = ''dummy'', TTL = 3\<rparr>,
            sstage = AtReportCh \<lparr>Ts = 20, From = 0, To = 1\<rparr>\<rparr>]"
proof -
  let ?s0 = "NewSimulator twin_graph twin_table 4 10 0"
  let ?as = "[Boot 0, Boot 1, Call 0 3, Tick 10, MainWake, Recv 0, Tick 10, Wake 1]"
  have "\<exists>s. run ?s0 ?as = Next s
     \<and> nodesCh s ! 1 = Select (10 * second) [''dummy'' \<mapsto> True]
     \<and> senders s ! 1 = \<lparr>sfrom = 0, sto = 1, smessage = \<lparr>Content = ''dummy'', TTL = 3\<rparr>,
                          sstage = AtNodeCh\<rparr>
     \<and> length (senders s) = 4 \<and> length (nodesCh s) = 2
     \<and> clock s = 20 \<and> simulationStart s = 0"
    by (simp add: eval_defs example_defs)
  then obtain s where r: "run ?s0 ?as = Next s"
    and sel: "nodesCh s ! 1 = Select (10 * second) [''dummy'' \<mapsto> True]"
    and snd: "senders s ! 1 = \<lparr>sfrom = 0, sto = 1,
                 smessage = \<lparr>Content = ''dummy'', TTL = 3\<rparr>, sstage = AtNodeCh\<rparr>"
    and len: "length (senders s) = 4" "length (nodesCh s) = 2"
    and clk: "clock s = 20" "simulationStart s = 0"
    by blast
  have k: "1 < length (senders s)" using len by simp
  have v: "valid_idx (nodesCh s) 1" using len by (simp add: valid_idx_def)
  from C7_entry_on_completed_handoff [OF r k snd v] sel clk
  obtain s' where "step s (Recv 1) = Next s'"
    "senders s' = (senders s)[1 := \<lparr>sfrom = 0, sto = 1,
            smessage = \<lparr>Content = ''dummy'', TTL = 3\<rparr>,
            sstage = AtReportCh \<lparr>Ts = 20, From = 0, To = 1\<rparr>\<rparr>]"
    by auto
  with r sel snd show ?thesis by blast
qed

section \<open>An empty log is returned, not refused\<close>

text \<open>
  C4, at a failing input: the two-node network built with a delay of eleven seconds.
  Both actors time out after ten seconds, while the caller still sleeps in
  \<open>propagateMessage\<close>; the sender to node 1 then blocks for ever, the wait group is at
  zero, and \<open>SendMessage\<close> returns the empty log although the start node has a peer.
  The Whisper simulator ends such a round with \<open>log.Fatal\<close>.
\<close>

theorem C4_empty_log_returned:
  "peers_of (NewSimulator pair_graph pair_table 4 (11 * second) 0) 0 = [1]
   \<and> result (run (NewSimulator pair_graph pair_table 4 (11 * second) 0)
       [Boot 0, Boot 1, Call 0 3, Tick (10 * second), Expire 0, Expire 1, Tick second,
        MainWake, Done]) = Some []
   \<and> whisperv6_SendMessage_end False False [] = FatalNoEvents"
  by (simp add: eval_defs example_defs whisperv6_SendMessage_end_def)

section \<open>Hop budget\<close>

lemma sint_dec:
  fixes w :: "64 word"
  assumes "0 < sint w"
  shows "sint (w - 1) = sint w - 1"
proof -
  have "sint w < 2 ^ 63" using sint_lt [of w] by simp
  with assms have "signed_take_bit 63 (sint w - 1) = sint w - 1"
    by (intro signed_take_bit_int_eq_self) simp_all
  then show ?thesis by (simp add: sint_word_diff)
qed

lemma in_set_updateD: "x \<in> set (xs[i := y]) \<Longrightarrow> x = y \<or> x \<in> set xs"
  using set_update_subset_insert [of xs i y] by auto

lemma call_ttls_mem: "Call startNodeIdx ttl \<in> set as \<Longrightarrow> ttl \<in> set (call_ttls as)"
  by (induction as rule: call_ttls.induct) auto

lemma all_messages_mono:
  assumes "all_messages P s" "\<And>m. P m \<Longrightarrow> P' m"
  shows "all_messages P' s"
  using assms by (auto simp: all_messages_def split: actor.splits caller.splits)

lemma step_all_messages_gen:
  assumes "step s a = Next s'" "all_messages P s"
    and mono: "\<And>m. P m \<Longrightarrow> P' m"
    and call: "\<And>startNodeIdx ttl. a = Call startNodeIdx ttl \<Longrightarrow> P' \<lparr>Content = ''dummy'', TTL = ttl\<rparr>"
    and fwd: "\<And>k dl c. a = Recv k \<Longrightarrow> k < length (senders s) \<Longrightarrow>
        valid_idx (nodesCh s) (sto (senders s ! k)) \<Longrightarrow>
        nodesCh s ! nat (sto (senders s ! k)) = Select dl c \<Longrightarrow>
        \<not> cached c (Content (smessage (senders s ! k))) \<Longrightarrow>
        TTL (smessage (senders s ! k)) - 1 \<noteq> 0 \<Longrightarrow>
        P (smessage (senders s ! k)) \<Longrightarrow>
        P' ((smessage (senders s ! k))\<lparr>TTL := TTL (smessage (senders s ! k)) - 1\<rparr>)"
  shows "all_messages P' s'"
proof -
  have inv: "all_messages P' s" using assms(2) mono by (rule all_messages_mono)
  show ?thesis
  proof (cases a)
    case (Tick d)
    with assms(1) inv show ?thesis by (auto elim!: step_TickE simp: all_messages_def)
  next
    case (Boot i)
    with assms(1) have "runNode_start s i = Next s'" by simp
    then show ?thesis using inv
      by (elim step_BootE) (auto simp: all_messages_def dest!: in_set_updateD)
  next
    case (Recv k)
    with assms(1) have "sendMessage_deliver s k = Next s'" by simp
    then show ?thesis
    proof (cases rule: step_RecvE)
      case (Duplicate dl c)
      with inv show ?thesis by (auto simp: all_messages_def dest!: in_set_updateD)
    next
      case (Exhausted dl c)
      with inv show ?thesis by (auto simp: all_messages_def dest!: in_set_updateD)
    next
      case (Forward dl c)
      from Forward(1) assms(2) have "P (smessage (senders s ! k))"
        by (simp add: all_messages_def)
      with Recv Forward(1,3,4,5,6)
      have "P' ((smessage (senders s ! k))\<lparr>TTL := TTL (smessage (senders s ! k)) - 1\<rparr>)"
        by (intro fwd)
      with Forward(1,7) inv show ?thesis
        by (auto simp: all_messages_def dest!: in_set_updateD)
    qed
  next
    case (Wake i)
    with assms(1) have "runNode_propagate s i = Next s'" by simp
    then show ?thesis
    proof (cases rule: step_WakeE)
      case (1 dl c w m)
      from 1(1) have "nat i < length (nodesCh s)" by (auto simp: valid_idx_def)
      then have "nodesCh s ! nat i \<in> set (nodesCh s)" by (rule nth_mem)
      with 1(2) inv have "P' m" by (auto simp: all_messages_def)
      with 1(4) inv show ?thesis
        by (auto simp: all_messages_def propagateMessage_def dest!: in_set_updateD)
    qed
  next
    case (Expire i)
    with assms(1) have "runNode_timeout s i = Next s'" by simp
    then show ?thesis using inv
      by (elim step_ExpireE) (auto simp: all_messages_def dest!: in_set_updateD)
  next
    case (Call startNodeIdx ttl)
    with assms(1) have "SendMessage_call s startNodeIdx ttl = Next s'" by simp
    then show ?thesis using inv call [OF Call]
      by (elim step_CallE) (simp add: all_messages_def)
  next
    case MainWake
    with assms(1) have "SendMessage_propagate s = Next s'" by simp
    then show ?thesis using inv
      by (elim step_MainWakeE) (auto simp: all_messages_def propagateMessage_def)
  next
    case (Report k)
    with assms(1) have "sendMessage_report s k = Next s'" by simp
    then show ?thesis using inv
      by (elim step_ReportE) (auto simp: all_messages_def dest!: in_set_updateD)
  next
    case Done
    with assms(1) inv show ?thesis by (auto elim!: step_DoneE simp: all_messages_def)
  qed
qed

lemma step_all_messages:
  assumes "step s a = Next s'" "all_messages P s"
    and call: "\<And>startNodeIdx ttl. a = Call startNodeIdx ttl \<Longrightarrow> P \<lparr>Content = ''dummy'', TTL = ttl\<rparr>"
    and fwd: "\<And>m. P m \<Longrightarrow> TTL m - 1 \<noteq> 0 \<Longrightarrow> P (m\<lparr>TTL := TTL m - 1\<rparr>)"
  shows "all_messages P s'"
  using assms(1,2)
proof (rule step_all_messages_gen)
  fix m
  assume "P m"
  then show "P m" .
next
  fix startNodeIdx ttl
  assume "a = Call startNodeIdx ttl"
  then show "P \<lparr>Content = ''dummy'', TTL = ttl\<rparr>" by (rule call)
next
  fix k
  assume "P (smessage (senders s ! k))" "TTL (smessage (senders s ! k)) - 1 \<noteq> 0"
  then show "P ((smessage (senders s ! k))\<lparr>TTL := TTL (smessage (senders s ! k)) - 1\<rparr>)"
    by (rule fwd)
qed

lemma NewSimulator_all_messages: "all_messages P (NewSimulator g table N d t0)"
  by (simp add: all_messages_def NewSimulator_def)

lemma budget_forward:
  assumes "budget ttls m" "TTL m - 1 \<noteq> 0"
  shows "budget ttls (m\<lparr>TTL := TTL m - 1\<rparr>)"
proof -
  from assms(1) have pos: "0 < sint (TTL m)" by (simp add: budget_def)
  then have eq: "sint (TTL m - 1) = sint (TTL m) - 1" by (rule sint_dec)
  have "sint (TTL m - 1) \<noteq> 0" using assms(2) by (simp add: signed_eq_0_iff)
  with eq pos have "0 < sint (TTL m - 1)" by simp
  moreover have "\<exists>u \<in> set ttls. sint (TTL m - 1) \<le> sint u"
  proof -
    from assms(1) obtain u where u: "u \<in> set ttls" "sint (TTL m) \<le> sint u"
      by (auto simp: budget_def)
    from u(2) eq have "sint (TTL m - 1) \<le> sint u" by simp
    with u(1) show ?thesis by blast
  qed
  ultimately show ?thesis by (simp add: budget_def)
qed

lemma reach_budget:
  assumes "run (NewSimulator g table N d t0) as = Next s"
    and "\<forall>u \<in> set (call_ttls as). 0 < sint u"
  shows "all_messages (budget (call_ttls as)) s"
  using assms(1)
proof (rule run_invariant)
  show "all_messages (budget (call_ttls as)) (NewSimulator g table N d t0)"
    by (rule NewSimulator_all_messages)
next
  fix x a y
  assume inv: "all_messages (budget (call_ttls as)) x" and a: "a \<in> set as"
    and st: "step x a = Next y"
  show "all_messages (budget (call_ttls as)) y"
  proof (rule step_all_messages [OF st inv])
    fix startNodeIdx ttl
    assume "a = Call startNodeIdx ttl"
    with a have "ttl \<in> set (call_ttls as)" by (simp add: call_ttls_mem)
    with assms(2) show "budget (call_ttls as) \<lparr>Content = ''dummy'', TTL = ttl\<rparr>"
      by (auto simp: budget_def)
  next
    fix m
    assume "budget (call_ttls as) m" "TTL m - 1 \<noteq> 0"
    then show "budget (call_ttls as) (m\<lparr>TTL := TTL m - 1\<rparr>)" by (rule budget_forward)
  qed
qed

lemma chain_length:
  assumes "forwarding_chain gs" "gs \<noteq> []" "\<forall>g \<in> set gs. 0 < sint (TTL (smessage g))"
  shows "int (length gs) \<le> sint (TTL (smessage (hd gs)))"
  using assms
proof (induction gs rule: forwarding_chain.induct)
  case 1
  then show ?case by simp
next
  case (2 g)
  then show ?case by simp
next
  case (3 g g' gs)
  from "3.prems" have l: "linked g g'" and ch: "forwarding_chain (g' # gs)" by simp_all
  from "3.prems" have pos: "0 < sint (TTL (smessage g))" by simp
  from "3.IH" [OF ch] "3.prems"(3)
  have "int (length (g' # gs)) \<le> sint (TTL (smessage g'))" by simp
  also have "\<dots> = sint (TTL (smessage g)) - 1"
    using l sint_dec [OF pos] by (simp add: linked_def)
  finally show ?case by simp
qed

lemma exhausted_returns:
  assumes "step s (Recv k) = Next s'"
    and "nodesCh s ! nat (sto (senders s ! k)) = Select dl c"
    and "\<not> cached c (Content (smessage (senders s ! k)))"
    and "TTL (smessage (senders s ! k)) - 1 = 0"
  shows "nodesCh s' ! nat (sto (senders s ! k)) = Exited
       \<and> length (senders s') = length (senders s)
       \<and> \<not> may_forward (sto (senders s ! k)) c' s'"
proof -
  from assms(1) have "sendMessage_deliver s k = Next s'" by simp
  then show ?thesis
  proof (cases rule: step_RecvE)
    case (Duplicate dl' c'')
    with assms(2,3) show ?thesis by simp
  next
    case (Exhausted dl' c'')
    from Exhausted(3) have "nat (sto (senders s ! k)) < length (nodesCh s)"
      by (auto simp: valid_idx_def)
    with Exhausted(8) show ?thesis by (simp add: may_forward_def)
  next
    case (Forward dl' c'')
    with assms(4) show ?thesis by simp
  qed
qed

text \<open>
  C2. A receipt that is not a duplicate decrements the TTL exactly once; when the
  decremented TTL is zero the actor returns and never forwards again, and no sender is
  spawned. So, when every call of \<open>SendMessage\<close> in the run has a positive TTL, every
  message in transit carries a TTL between one and the TTL of a call, and a forwarding
  chain (each sender dispatched by the receiver of the one before, with the TTL one
  less) is no longer than the TTL of its first sender: a chain that starts at a seed of
  TTL \<open>t\<close> has at most \<open>t\<close> hops.
\<close>

theorem C2_ttl_bounds_hops:
  assumes "run (NewSimulator g table N d t0) as = Next s"
    and "\<forall>u \<in> set (call_ttls as). 0 < sint u"
  shows "(\<forall>c m. \<not> cached c (Content m) \<longrightarrow>
            runNode_message c m =
              (c(Content m \<mapsto> True),
               if TTL m - 1 = 0 then Exhausted else Forward (m\<lparr>TTL := TTL m - 1\<rparr>)))
       \<and> (\<forall>k s' dl c. step s (Recv k) = Next s' \<and>
              nodesCh s ! nat (sto (senders s ! k)) = Select dl c \<and>
              \<not> cached c (Content (smessage (senders s ! k))) \<and>
              TTL (smessage (senders s ! k)) - 1 = 0 \<longrightarrow>
            nodesCh s' ! nat (sto (senders s ! k)) = Exited \<and>
            length (senders s') = length (senders s) \<and>
            (\<forall>c' bs. fwd_count (sto (senders s ! k)) c' s' bs = 0))
       \<and> (\<forall>x \<in> set (senders s).
            0 < sint (TTL (smessage x)) \<and>
            (\<exists>u \<in> set (call_ttls as). sint (TTL (smessage x)) \<le> sint u))
       \<and> (\<forall>gs. gs \<noteq> [] \<and> set gs \<subseteq> set (senders s) \<and> forwarding_chain gs \<longrightarrow>
            int (length gs) \<le> sint (TTL (smessage (hd gs))))"
proof -
  have one: "\<forall>c m. \<not> cached c (Content m) \<longrightarrow>
            runNode_message c m =
              (c(Content m \<mapsto> True),
               if TTL m - 1 = 0 then Exhausted else Forward (m\<lparr>TTL := TTL m - 1\<rparr>))"
    by (simp add: runNode_message_def Let_def)
  have two: "\<forall>k s' dl c. step s (Recv k) = Next s' \<and>
              nodesCh s ! nat (sto (senders s ! k)) = Select dl c \<and>
              \<not> cached c (Content (smessage (senders s ! k))) \<and>
              TTL (smessage (senders s ! k)) - 1 = 0 \<longrightarrow>
            nodesCh s' ! nat (sto (senders s ! k)) = Exited \<and>
            length (senders s') = length (senders s) \<and>
            (\<forall>c' bs. fwd_count (sto (senders s ! k)) c' s' bs = 0)"
  proof (intro allI impI)
    fix k s' dl c
    assume h: "step s (Recv k) = Next s' \<and>
              nodesCh s ! nat (sto (senders s ! k)) = Select dl c \<and>
              \<not> cached c (Content (smessage (senders s ! k))) \<and>
              TTL (smessage (senders s ! k)) - 1 = 0"
    then have e: "\<And>c'. nodesCh s' ! nat (sto (senders s ! k)) = Exited
       \<and> length (senders s') = length (senders s)
       \<and> \<not> may_forward (sto (senders s ! k)) c' s'"
      by (intro exhausted_returns) blast+
    have "fwd_count (sto (senders s ! k)) c' s' bs = 0" for c' bs
      using fwd_count_bound [of "sto (senders s ! k)" c' s' bs] e [of c'] by simp
    with e show "nodesCh s' ! nat (sto (senders s ! k)) = Exited \<and>
            length (senders s') = length (senders s) \<and>
            (\<forall>c' bs. fwd_count (sto (senders s ! k)) c' s' bs = 0)"
      by blast
  qed
  from reach_budget [OF assms] have three: "\<forall>x \<in> set (senders s).
            0 < sint (TTL (smessage x)) \<and>
            (\<exists>u \<in> set (call_ttls as). sint (TTL (smessage x)) \<le> sint u)"
    by (simp add: all_messages_def budget_def)
  have four: "\<forall>gs. gs \<noteq> [] \<and> set gs \<subseteq> set (senders s) \<and> forwarding_chain gs \<longrightarrow>
            int (length gs) \<le> sint (TTL (smessage (hd gs)))"
  proof (intro allI impI)
    fix gs
    assume h: "gs \<noteq> [] \<and> set gs \<subseteq> set (senders s) \<and> forwarding_chain gs"
    with three have "\<forall>x \<in> set gs. 0 < sint (TTL (smessage x))" by blast
    with h show "int (length gs) \<le> sint (TTL (smessage (hd gs)))"
      by (intro chain_length) simp_all
  qed
  from one two three four show ?thesis by blast
qed

theorem C2_witness:
  "\<exists>s. run (NewSimulator pair_graph pair_table 4 10 0)
       [Boot 0, Boot 1, Call 0 2, Tick 10, MainWake, Recv 0, Tick 10, Wake 1, Recv 1] = Next s
     \<and> call_ttls [Boot 0, Boot 1, Call 0 2, Tick 10, MainWake, Recv 0, Tick 10, Wake 1, Recv 1]
         = [2]
     \<and> map sfrom (senders s) = [0, 1] \<and> map sto (senders s) = [1, 0]
     \<and> map (TTL \<circ> smessage) (senders s) = [2, 1]
     \<and> forwarding_chain (senders s)
     \<and> nodesCh s ! 0 = Exited
     \<and> int (length (senders s)) \<le> 2"
proof -
  let ?s0 = "NewSimulator pair_graph pair_table 4 10 0"
  let ?as = "[Boot 0, Boot 1, Call 0 2, Tick 10, MainWake, Recv 0, Tick 10, Wake 1, Recv 1]"
  have "\<exists>s. run ?s0 ?as = Next s
     \<and> map sfrom (senders s) = [0, 1] \<and> map sto (senders s) = [1, 0]
     \<and> map (TTL \<circ> smessage) (senders s) = [2, 1]
     \<and> forwarding_chain (senders s)
     \<and> nodesCh s ! 0 = Exited"
    by (simp add: eval_defs example_defs linked_def)
  then obtain s where H: "run ?s0 ?as = Next s
     \<and> map sfrom (senders s) = [0, 1] \<and> map sto (senders s) = [1, 0]
     \<and> map (TTL \<circ> smessage) (senders s) = [2, 1]
     \<and> forwarding_chain (senders s)
     \<and> nodesCh s ! 0 = Exited" ..
  then have r: "run ?s0 ?as = Next s"
    and f: "map sfrom (senders s) = [0, 1]" "map sto (senders s) = [1, 0]"
    and t: "map (TTL \<circ> smessage) (senders s) = [2, 1]"
    and ch: "forwarding_chain (senders s)" and ex: "nodesCh s ! 0 = Exited"
    by simp_all
  have c: "call_ttls ?as = [2]" by simp
  then have pos: "\<forall>u \<in> set (call_ttls ?as). 0 < sint u" by simp
  from f(1) have ne: "senders s \<noteq> []" by auto
  from t ne have hd: "TTL (smessage (hd (senders s))) = 2" by (cases "senders s") auto
  have sub: "set (senders s) \<subseteq> set (senders s)" by simp
  from C2_ttl_bounds_hops [OF r pos]
  have "\<forall>gs. gs \<noteq> [] \<and> set gs \<subseteq> set (senders s) \<and> forwarding_chain gs \<longrightarrow>
            int (length gs) \<le> sint (TTL (smessage (hd gs)))"
    by (elim conjE)
  with ne sub ch
  have "int (length (senders s)) \<le> sint (TTL (smessage (hd (senders s))))" by blast
  with hd have le: "int (length (senders s)) \<le> 2" by simp
  show ?thesis
    by (rule exI [of _ s]) (intro conjI r c f t ch ex le)
qed

section \<open>A TTL that is not positive\<close>

lemma sint_of_nat_small:
  assumes "int n < 2 ^ 63"
  shows "sint (of_nat n :: 64 word) = int n"
proof -
  have "- (2 ^ 63) \<le> int n"
  proof -
    have "- (2 ^ 63) \<le> (0::int)" by simp
    also have "0 \<le> int n" by simp
    finally show ?thesis .
  qed
  then have "signed_take_bit 63 (int n) = int n"
    using assms by (rule signed_take_bit_int_eq_self)
  then show ?thesis by (simp add: signed_of_nat)
qed

lemma sub_of_nat_nonzero:
  fixes u :: "64 word"
  assumes "sint u \<le> 0" "0 < n" "int n < 2 ^ 63"
  shows "u - of_nat n \<noteq> 0"
proof
  assume "u - of_nat n = 0"
  then have "u = of_nat n" by simp
  then have "sint u = int n" using assms(3) by (simp add: sint_of_nat_small)
  with assms(1,2) show False by simp
qed

lemma sint_sub_of_nat:
  fixes u :: "64 word"
  assumes "sint u \<le> 0" "int n < 2 ^ 63" "- (2 ^ 63) \<le> sint u - int n"
  shows "sint (u - of_nat n) = sint u - int n"
proof -
  have "sint u - int n < 2 ^ 63" using assms(1) by simp
  with assms(3) have "signed_take_bit 63 (sint u - int n) = sint u - int n"
    by (intro signed_take_bit_int_eq_self) simp_all
  then show ?thesis using assms(2) by (simp add: sint_word_diff sint_of_nat_small)
qed

lemma seen_subset: "seen s c \<subseteq> {..<length (nodesCh s)}"
  by (auto simp: seen_def)

lemma seen_finite: "finite (seen s c)"
  using seen_subset [of s c] by (rule finite_subset) simp

lemma seen_same: "nodesCh s' = nodesCh s \<Longrightarrow> seen s c \<subseteq> seen s' c"
  by (simp add: seen_def)

lemma seen_update:
  assumes "nodesCh s' = (nodesCh s)[i := y]" "i < length (nodesCh s)"
  shows "seen s' c = (if recorded y c then insert i (seen s c) else seen s c - {i})"
  using assms by (auto simp: seen_def nth_list_update)

lemma card_seen_less:
  assumes "i < length (nodesCh s)" "i \<notin> seen s c"
  shows "card (seen s c) < length (nodesCh s)"
proof -
  have "seen s c \<subseteq> {..<length (nodesCh s)} - {i}" using seen_subset [of s c] assms(2) by auto
  then have "card (seen s c) \<le> card ({..<length (nodesCh s)} - {i})"
    by (intro card_mono) simp_all
  also have "\<dots> < length (nodesCh s)" using assms(1) by simp
  finally show ?thesis .
qed

lemma seen_update_mono:
  assumes "nodesCh s' = (nodesCh s)[i := y]"
    and "recorded (nodesCh s ! i) c \<Longrightarrow> recorded y c"
  shows "seen s c \<subseteq> seen s' c"
proof
  fix j
  assume "j \<in> seen s c"
  then have j: "j < length (nodesCh s)" "recorded (nodesCh s ! j) c" by (simp_all add: seen_def)
  show "j \<in> seen s' c"
  proof (cases "j = i")
    case True
    with j assms show ?thesis by (simp add: seen_def)
  next
    case False
    with j assms(1) show ?thesis by (simp add: seen_def)
  qed
qed

lemma step_seen_mono:
  assumes "step s a = Next s'"
  shows "seen s c \<subseteq> seen s' c"
proof (cases a)
  case (Tick d)
  with assms have "advance s d = Next s'" by simp
  then have "nodesCh s' = nodesCh s" by (elim step_TickE) simp
  then show ?thesis by (rule seen_same)
next
  case (Boot i)
  with assms have "runNode_start s i = Next s'" by simp
  then show ?thesis
  proof (cases rule: step_BootE)
    case 1
    have "nodesCh s' = (nodesCh s)[nat i := Select (clock s + 10 * second) Map.empty]"
      using 1(3) by simp
    then show ?thesis
      by (rule seen_update_mono) (simp add: 1(2) recorded_def)
  qed
next
  case (Recv k)
  with assms have "sendMessage_deliver s k = Next s'" by simp
  then show ?thesis
  proof (cases rule: step_RecvE)
    case (Duplicate dl ca)
    then have "nodesCh s' = nodesCh s" by simp
    then show ?thesis by (rule seen_same)
  next
    case (Exhausted dl ca)
    have "nodesCh s' = (nodesCh s)[nat (sto (senders s ! k)) := Exited]"
      using Exhausted(8) by simp
    then show ?thesis
      by (rule seen_update_mono) (simp add: recorded_def)
  next
    case (Forward dl ca)
    have "nodesCh s' = (nodesCh s)[nat (sto (senders s ! k)) :=
              Sleeping dl (ca(Content (smessage (senders s ! k)) \<mapsto> True)) (clock s + delay s)
                ((smessage (senders s ! k))\<lparr>TTL := TTL (smessage (senders s ! k)) - 1\<rparr>)]"
      using Forward(7) by simp
    then show ?thesis
      by (rule seen_update_mono) (simp add: Forward(4) recorded_def cached_def)
  qed
next
  case (Wake i)
  with assms have "runNode_propagate s i = Next s'" by simp
  then show ?thesis
  proof (cases rule: step_WakeE)
    case (1 dl ca w m)
    have "nodesCh s' = (nodesCh s)[nat i := Select dl ca]" using 1(4) by simp
    then show ?thesis
      by (rule seen_update_mono) (simp add: 1(2) recorded_def)
  qed
next
  case (Expire i)
  with assms have "runNode_timeout s i = Next s'" by simp
  then show ?thesis
  proof (cases rule: step_ExpireE)
    case (1 dl ca)
    have "nodesCh s' = (nodesCh s)[nat i := Exited]" using 1(5) by simp
    then show ?thesis
      by (rule seen_update_mono) (simp add: recorded_def)
  qed
next
  case (Call startNodeIdx ttl)
  with assms have "SendMessage_call s startNodeIdx ttl = Next s'" by simp
  then have "nodesCh s' = nodesCh s" by (elim step_CallE) simp
  then show ?thesis by (rule seen_same)
next
  case MainWake
  with assms have "SendMessage_propagate s = Next s'" by simp
  then have "nodesCh s' = nodesCh s" by (elim step_MainWakeE) simp
  then show ?thesis by (rule seen_same)
next
  case (Report k)
  with assms have "sendMessage_report s k = Next s'" by simp
  then have "nodesCh s' = nodesCh s" by (elim step_ReportE) simp
  then show ?thesis by (rule seen_same)
next
  case Done
  with assms have "SendMessage_done s = Next s'" by simp
  then have "nodesCh s' = nodesCh s" by (elim step_DoneE) simp
  then show ?thesis by (rule seen_same)
qed

lemma spent_mono:
  assumes "step s a = Next s'" "spent ttls s m"
  shows "spent ttls s' m"
proof -
  from assms(2) obtain u h where u: "u \<in> set ttls"
    and h: "h \<le> card (seen s (Content m))" "TTL m = u - of_nat h"
    unfolding spent_def by blast
  have "card (seen s (Content m)) \<le> card (seen s' (Content m))"
    using step_seen_mono [OF assms(1)] seen_finite by (intro card_mono)
  with h(1) have "h \<le> card (seen s' (Content m))" by simp
  with u h(2) show ?thesis unfolding spent_def by blast
qed

lemma spentI:
  assumes "u \<in> set ttls" "h \<le> card (seen s (Content m))" "TTL m = u - of_nat h"
  shows "spent ttls s m"
  unfolding spent_def using assms by blast

lemma forward_spent:
  assumes st: "sendMessage_deliver s k = Next s'"
    and sel: "nodesCh s ! nat (sto (senders s ! k)) = Select dl c"
    and fresh: "\<not> cached c (Content (smessage (senders s ! k)))"
    and nz: "TTL (smessage (senders s ! k)) - 1 \<noteq> 0"
    and sp: "spent ttls s (smessage (senders s ! k))"
  shows "spent ttls s' ((smessage (senders s ! k))\<lparr>TTL := TTL (smessage (senders s ! k)) - 1\<rparr>)"
  using st
proof (cases rule: step_RecvE)
  case (Duplicate dl' c')
  with sel fresh show ?thesis by simp
next
  case (Exhausted dl' c')
  with nz show ?thesis by simp
next
  case (Forward dl' c')
  let ?m = "smessage (senders s ! k)"
  let ?t = "nat (sto (senders s ! k))"
  have n: "?t < length (nodesCh s)" using Forward(3) by (auto simp: valid_idx_def)
  have upd: "nodesCh s' = (nodesCh s)[?t :=
              Sleeping dl' (c'(Content ?m \<mapsto> True)) (clock s + delay s)
                (?m\<lparr>TTL := TTL ?m - 1\<rparr>)]"
    using Forward(7) by simp
  have new: "seen s' (Content ?m) = insert ?t (seen s (Content ?m))"
    using seen_update [OF upd n, of "Content ?m"] by (simp add: recorded_def cached_def)
  have notin: "?t \<notin> seen s (Content ?m)"
    using Forward(4,5) by (simp add: seen_def recorded_def)
  from new notin have card: "card (seen s' (Content ?m)) = Suc (card (seen s (Content ?m)))"
    using seen_finite [of s "Content ?m"] by simp
  from sp obtain u h where u: "u \<in> set ttls"
    and h: "h \<le> card (seen s (Content ?m))" "TTL ?m = u - of_nat h"
    unfolding spent_def by blast
  have eq: "TTL (?m\<lparr>TTL := TTL ?m - 1\<rparr>) = u - of_nat (Suc h)" using h(2) by simp
  have le: "Suc h \<le> card (seen s' (Content (?m\<lparr>TTL := TTL ?m - 1\<rparr>)))"
    using h(1) card by simp
  from u le eq show ?thesis by (rule spentI)
qed

lemma step_spent:
  assumes st: "step s a = Next s'" and inv: "all_messages (spent ttls s) s"
    and a: "\<And>startNodeIdx ttl. a = Call startNodeIdx ttl \<Longrightarrow> ttl \<in> set ttls"
  shows "all_messages (spent ttls s') s'"
proof (rule step_all_messages_gen [OF st inv])
  fix m
  assume "spent ttls s m"
  with st show "spent ttls s' m" by (rule spent_mono)
next
  fix startNodeIdx ttl
  assume "a = Call startNodeIdx ttl"
  then have u: "ttl \<in> set ttls" by (rule a)
  have le: "0 \<le> card (seen s' (Content \<lparr>Content = ''dummy'', TTL = ttl\<rparr>))" by simp
  have eq: "TTL \<lparr>Content = ''dummy'', TTL = ttl\<rparr> = ttl - of_nat 0" by simp
  from u le eq show "spent ttls s' \<lparr>Content = ''dummy'', TTL = ttl\<rparr>" by (rule spentI)
next
  fix k dl c
  assume "a = Recv k" and sel: "nodesCh s ! nat (sto (senders s ! k)) = Select dl c"
    and fresh: "\<not> cached c (Content (smessage (senders s ! k)))"
    and nz: "TTL (smessage (senders s ! k)) - 1 \<noteq> 0"
    and sp: "spent ttls s (smessage (senders s ! k))"
  with st have "sendMessage_deliver s k = Next s'" by simp
  then show "spent ttls s'
      ((smessage (senders s ! k))\<lparr>TTL := TTL (smessage (senders s ! k)) - 1\<rparr>)"
    using sel fresh nz sp by (rule forward_spent)
qed

lemma reach_spent:
  assumes "run (NewSimulator g table N d t0) as = Next s"
  shows "all_messages (spent (call_ttls as) s) s"
  using assms
proof (rule run_invariant [where P = "\<lambda>x. all_messages (spent (call_ttls as) x) x"])
  show "all_messages (spent (call_ttls as) (NewSimulator g table N d t0))
          (NewSimulator g table N d t0)"
    by (rule NewSimulator_all_messages)
next
  fix x a y
  assume "all_messages (spent (call_ttls as) x) x" "a \<in> set as" "step x a = Next y"
  then show "all_messages (spent (call_ttls as) y) y"
    by (intro step_spent [of x a y]) (auto simp: call_ttls_mem)
qed

lemma reach_length:
  assumes "run (NewSimulator g table N d t0) as = Next s"
  shows "length (nodesCh s) = length (node_ids g)"
  using assms
proof (rule run_invariant [where P = "\<lambda>x. length (nodesCh x) = length (node_ids g)"])
  show "length (nodesCh (NewSimulator g table N d t0)) = length (node_ids g)"
    by (simp add: NewSimulator_def)
next
  fix x a y
  assume "length (nodesCh x) = length (node_ids g)" "step x a = Next y"
  then show "length (nodesCh y) = length (node_ids g)"
    using step_length_nodesCh [of x a y] by simp
qed

lemma fresh_receipt_budget:
  assumes reach: "run (NewSimulator g table N d t0) as = Next s"
    and k: "k < length (senders s)"
    and v: "valid_idx (nodesCh s) (sto (senders s ! k))"
    and sel: "nodesCh s ! nat (sto (senders s ! k)) = Select dl c"
    and fresh: "\<not> cached c (Content (smessage (senders s ! k)))"
  shows "\<exists>u \<in> set (call_ttls as). \<exists>h. int (Suc h) \<le> int (length (node_ids g)) \<and>
           TTL (smessage (senders s ! k)) - 1 = u - of_nat (Suc h)"
proof -
  let ?m = "smessage (senders s ! k)"
  let ?t = "nat (sto (senders s ! k))"
  from reach_spent [OF reach] k have "spent (call_ttls as) s ?m"
    by (simp add: all_messages_def)
  then obtain u h where u: "u \<in> set (call_ttls as)"
    and h: "h \<le> card (seen s (Content ?m))" "TTL ?m = u - of_nat h"
    unfolding spent_def by blast
  have n: "?t < length (nodesCh s)" using v by (auto simp: valid_idx_def)
  have "?t \<notin> seen s (Content ?m)" using sel fresh by (simp add: seen_def recorded_def)
  with n have "card (seen s (Content ?m)) < length (nodesCh s)" by (rule card_seen_less)
  with h(1) have "Suc h \<le> length (nodesCh s)" by simp
  then have le: "int (Suc h) \<le> int (length (node_ids g))"
    using reach_length [OF reach] by simp
  have eq: "TTL ?m - 1 = u - of_nat (Suc h)" using h(2) by simp
  from u le eq show ?thesis by blast
qed

lemma exit_only_by_timer:
  assumes st: "step s a = Next s'"
    and v: "valid_idx (nodesCh s) i"
    and before: "nodesCh s ! nat i \<noteq> Exited"
    and after: "nodesCh s' ! nat i = Exited"
    and fwd: "\<And>k dl c. k < length (senders s) \<Longrightarrow>
        valid_idx (nodesCh s) (sto (senders s ! k)) \<Longrightarrow>
        nodesCh s ! nat (sto (senders s ! k)) = Select dl c \<Longrightarrow>
        \<not> cached c (Content (smessage (senders s ! k))) \<Longrightarrow>
        TTL (smessage (senders s ! k)) - 1 \<noteq> 0"
  shows "a = Expire i"
proof (cases a)
  case (Tick d)
  with st before after show ?thesis by (auto elim!: step_TickE)
next
  case (Boot j)
  with st v before after show ?thesis
    by (auto elim!: step_BootE simp: nth_list_update valid_idx_def split: if_splits)
next
  case (Recv k)
  with st have "sendMessage_deliver s k = Next s'" by simp
  then show ?thesis
  proof (cases rule: step_RecvE)
    case (Duplicate dl c)
    with before after show ?thesis by simp
  next
    case (Exhausted dl c)
    with fwd [of k dl c] show ?thesis by simp
  next
    case (Forward dl c)
    with v before after show ?thesis
      by (auto simp: nth_list_update valid_idx_def split: if_splits)
  qed
next
  case (Wake j)
  with st v before after show ?thesis
    by (auto elim!: step_WakeE simp: nth_list_update valid_idx_def split: if_splits)
next
  case (Expire j)
  with st have "runNode_timeout s j = Next s'" by simp
  then show ?thesis
  proof (cases rule: step_ExpireE)
    case (1 dl c)
    show ?thesis
    proof (cases "nat i = nat j")
      case True
      with v 1(1) have "i = j" by (auto simp: valid_idx_def)
      with Expire show ?thesis by simp
    next
      case False
      with 1(5) before after show ?thesis by simp
    qed
  qed
next
  case (Call startNodeIdx ttl)
  with st before after show ?thesis by (auto elim!: step_CallE)
next
  case MainWake
  with st before after show ?thesis by (auto elim!: step_MainWakeE)
next
  case (Report k)
  with st before after show ?thesis by (auto elim!: step_ReportE)
next
  case Done
  with st before after show ?thesis by (auto elim!: step_DoneE)
qed

text \<open>
  C10, as the code has it. When every call of \<open>SendMessage\<close> in the run has a TTL
  that is not positive, and the network has fewer than \<open>2 ^ 63\<close> nodes (a Go slice
  cannot be longer), then at every receipt that is not a duplicate the decremented TTL
  is not zero: the message is forwarded and the test \<open>message.TTL == 0\<close> never
  succeeds. The decremented TTL is negative as long as the 64-bit decrement cannot wrap
  around, that is when the number of nodes is at most the distance of the TTL from the
  least integer. An actor then returns by no step but its timer's, so propagation is
  bounded by the caches and the timers alone.
\<close>

theorem C10_nonpositive_ttl_never_exhausts:
  assumes "run (NewSimulator g table N d t0) as = Next s"
    and "\<forall>u \<in> set (call_ttls as). sint u \<le> 0"
    and "int (length (node_ids g)) < 2 ^ 63"
  shows "(\<forall>k dl c. k < length (senders s) \<and>
            valid_idx (nodesCh s) (sto (senders s ! k)) \<and>
            nodesCh s ! nat (sto (senders s ! k)) = Select dl c \<and>
            \<not> cached c (Content (smessage (senders s ! k))) \<longrightarrow>
          TTL (smessage (senders s ! k)) - 1 \<noteq> 0 \<and>
          runNode_message c (smessage (senders s ! k)) =
            (c(Content (smessage (senders s ! k)) \<mapsto> True),
             Forward ((smessage (senders s ! k))\<lparr>TTL := TTL (smessage (senders s ! k)) - 1\<rparr>)) \<and>
          ((\<forall>u \<in> set (call_ttls as). int (length (node_ids g)) \<le> 2 ^ 63 + sint u) \<longrightarrow>
             sint (TTL (smessage (senders s ! k)) - 1) < 0))
       \<and> (\<forall>a s' i. step s a = Next s' \<and> valid_idx (nodesCh s) i \<and>
            nodesCh s ! nat i \<noteq> Exited \<and> nodesCh s' ! nat i = Exited \<longrightarrow>
          a = Expire i)"
proof -
  have nz: "TTL (smessage (senders s ! k)) - 1 \<noteq> 0"
    and neg: "(\<forall>u \<in> set (call_ttls as). int (length (node_ids g)) \<le> 2 ^ 63 + sint u) \<longrightarrow>
             sint (TTL (smessage (senders s ! k)) - 1) < 0"
    if k: "k < length (senders s)"
      and v: "valid_idx (nodesCh s) (sto (senders s ! k))"
      and sel: "nodesCh s ! nat (sto (senders s ! k)) = Select dl c"
      and fresh: "\<not> cached c (Content (smessage (senders s ! k)))" for k dl c
  proof -
    from fresh_receipt_budget [OF assms(1) k v sel fresh]
    obtain u h where u: "u \<in> set (call_ttls as)"
      and le: "int (Suc h) \<le> int (length (node_ids g))"
      and eq: "TTL (smessage (senders s ! k)) - 1 = u - of_nat (Suc h)"
      by blast
    from u assms(2) have su: "sint u \<le> 0" by blast
    from le assms(3) have small: "int (Suc h) < 2 ^ 63" by linarith
    have "u - of_nat (Suc h) \<noteq> 0" using su _ small by (rule sub_of_nat_nonzero) simp
    then show "TTL (smessage (senders s ! k)) - 1 \<noteq> 0" unfolding eq .
    show "(\<forall>u \<in> set (call_ttls as). int (length (node_ids g)) \<le> 2 ^ 63 + sint u) \<longrightarrow>
             sint (TTL (smessage (senders s ! k)) - 1) < 0"
    proof
      assume "\<forall>u \<in> set (call_ttls as). int (length (node_ids g)) \<le> 2 ^ 63 + sint u"
      with u have "int (length (node_ids g)) \<le> 2 ^ 63 + sint u" by blast
      with le have low: "- (2 ^ 63) \<le> sint u - int (Suc h)" by linarith
      from su small low have val: "sint (u - of_nat (Suc h)) = sint u - int (Suc h)"
        by (rule sint_sub_of_nat)
      have pos: "0 < int (Suc h)" by simp
      show "sint (TTL (smessage (senders s ! k)) - 1) < 0"
        unfolding eq using val su pos by linarith
    qed
  qed
  have one: "\<forall>k dl c. k < length (senders s) \<and>
            valid_idx (nodesCh s) (sto (senders s ! k)) \<and>
            nodesCh s ! nat (sto (senders s ! k)) = Select dl c \<and>
            \<not> cached c (Content (smessage (senders s ! k))) \<longrightarrow>
          TTL (smessage (senders s ! k)) - 1 \<noteq> 0 \<and>
          runNode_message c (smessage (senders s ! k)) =
            (c(Content (smessage (senders s ! k)) \<mapsto> True),
             Forward ((smessage (senders s ! k))\<lparr>TTL := TTL (smessage (senders s ! k)) - 1\<rparr>)) \<and>
          ((\<forall>u \<in> set (call_ttls as). int (length (node_ids g)) \<le> 2 ^ 63 + sint u) \<longrightarrow>
             sint (TTL (smessage (senders s ! k)) - 1) < 0)"
  proof (intro allI impI)
    fix k dl c
    assume h: "k < length (senders s) \<and>
            valid_idx (nodesCh s) (sto (senders s ! k)) \<and>
            nodesCh s ! nat (sto (senders s ! k)) = Select dl c \<and>
            \<not> cached c (Content (smessage (senders s ! k)))"
    then have a: "TTL (smessage (senders s ! k)) - 1 \<noteq> 0" by (intro nz [of k dl c]) simp_all
    from h have b: "(\<forall>u \<in> set (call_ttls as). int (length (node_ids g)) \<le> 2 ^ 63 + sint u) \<longrightarrow>
             sint (TTL (smessage (senders s ! k)) - 1) < 0"
      by (intro neg [of k dl c]) simp_all
    from h a have c: "runNode_message c (smessage (senders s ! k)) =
            (c(Content (smessage (senders s ! k)) \<mapsto> True),
             Forward ((smessage (senders s ! k))\<lparr>TTL := TTL (smessage (senders s ! k)) - 1\<rparr>))"
      by (simp add: runNode_message_def Let_def)
    from a b c show "TTL (smessage (senders s ! k)) - 1 \<noteq> 0 \<and>
          runNode_message c (smessage (senders s ! k)) =
            (c(Content (smessage (senders s ! k)) \<mapsto> True),
             Forward ((smessage (senders s ! k))\<lparr>TTL := TTL (smessage (senders s ! k)) - 1\<rparr>)) \<and>
          ((\<forall>u \<in> set (call_ttls as). int (length (node_ids g)) \<le> 2 ^ 63 + sint u) \<longrightarrow>
             sint (TTL (smessage (senders s ! k)) - 1) < 0)"
      by (intro conjI)
  qed
  have two: "\<forall>a s' i. step s a = Next s' \<and> valid_idx (nodesCh s) i \<and>
            nodesCh s ! nat i \<noteq> Exited \<and> nodesCh s' ! nat i = Exited \<longrightarrow>
          a = Expire i"
  proof (intro allI impI)
    fix a s' i
    assume h: "step s a = Next s' \<and> valid_idx (nodesCh s) i \<and>
            nodesCh s ! nat i \<noteq> Exited \<and> nodesCh s' ! nat i = Exited"
    show "a = Expire i"
    proof (rule exit_only_by_timer)
      show "step s a = Next s'" using h by simp
      show "valid_idx (nodesCh s) i" using h by simp
      show "nodesCh s ! nat i \<noteq> Exited" using h by simp
      show "nodesCh s' ! nat i = Exited" using h by simp
    qed (rule nz)
  qed
  from one two show ?thesis by (rule conjI)
qed

text \<open>
  With the least 64-bit integer as TTL the first decrement wraps around: node 1 goes
  on to forward a message whose TTL is the greatest integer, which is positive.
\<close>

theorem C10_counterexample:
  "sint (- 9223372036854775808 :: 64 word) \<le> 0
   \<and> (case run (NewSimulator pair_graph pair_table 4 10 0)
          [Boot 0, Boot 1, Call 0 (- 9223372036854775808), Tick 10, MainWake, Recv 0] of
        Next s \<Rightarrow>
          (case nodesCh s ! 1 of
             Sleeping dl c w m \<Rightarrow> TTL m = 9223372036854775807 \<and> 0 < sint (TTL m)
           | _ \<Rightarrow> False)
      | _ \<Rightarrow> False)"
  by (simp add: eval_defs example_defs)

theorem C10_witness:
  "\<exists>s. run (NewSimulator pair_graph pair_table 4 10 0)
        [Boot 0, Boot 1, Call 0 0, Tick 10, MainWake] = Next s
     \<and> nodesCh s ! 1 = Select (10 * second) Map.empty
     \<and> smessage (senders s ! 0) = \<lparr>Content = ''dummy'', TTL = 0\<rparr>
     \<and> runNode_message Map.empty \<lparr>Content = ''dummy'', TTL = 0\<rparr> =
         ([''dummy'' \<mapsto> True], Forward \<lparr>Content = ''dummy'', TTL = - 1\<rparr>)
     \<and> sint (- 1 :: 64 word) < 0"
proof -
  let ?s0 = "NewSimulator pair_graph pair_table 4 10 0"
  let ?as = "[Boot 0, Boot 1, Call 0 0, Tick 10, MainWake]"
  have "\<exists>s. run ?s0 ?as = Next s
     \<and> nodesCh s ! 1 = Select (10 * second) Map.empty
     \<and> smessage (senders s ! 0) = \<lparr>Content = ''dummy'', TTL = 0\<rparr>
     \<and> sto (senders s ! 0) = 1 \<and> length (senders s) = 1 \<and> length (nodesCh s) = 2"
    by (simp add: eval_defs example_defs)
  then obtain s where H: "run ?s0 ?as = Next s
     \<and> nodesCh s ! 1 = Select (10 * second) Map.empty
     \<and> smessage (senders s ! 0) = \<lparr>Content = ''dummy'', TTL = 0\<rparr>
     \<and> sto (senders s ! 0) = 1 \<and> length (senders s) = 1 \<and> length (nodesCh s) = 2" ..
  then have r: "run ?s0 ?as = Next s"
    and sel: "nodesCh s ! 1 = Select (10 * second) Map.empty"
    and m: "smessage (senders s ! 0) = \<lparr>Content = ''dummy'', TTL = 0\<rparr>"
    and to: "sto (senders s ! 0) = 1" and len: "length (senders s) = 1" "length (nodesCh s) = 2"
    by simp_all
  have ttls: "\<forall>u \<in> set (call_ttls ?as). sint u \<le> 0" by simp
  have small: "int (length (node_ids pair_graph)) < 2 ^ 63" by (simp add: pair_graph_def)
  have pre: "0 < length (senders s) \<and>
            valid_idx (nodesCh s) (sto (senders s ! 0)) \<and>
            nodesCh s ! nat (sto (senders s ! 0)) = Select (10 * second) Map.empty \<and>
            \<not> cached Map.empty (Content (smessage (senders s ! 0)))"
    using sel m to len by (simp add: valid_idx_def cached_def)
  have nowrap: "\<forall>u \<in> set (call_ttls ?as). int (length (node_ids pair_graph)) \<le> 2 ^ 63 + sint u"
    by (simp add: pair_graph_def)
  from C10_nonpositive_ttl_never_exhausts [OF r ttls small]
  have "\<forall>k dl c. k < length (senders s) \<and>
            valid_idx (nodesCh s) (sto (senders s ! k)) \<and>
            nodesCh s ! nat (sto (senders s ! k)) = Select dl c \<and>
            \<not> cached c (Content (smessage (senders s ! k))) \<longrightarrow>
          TTL (smessage (senders s ! k)) - 1 \<noteq> 0 \<and>
          runNode_message c (smessage (senders s ! k)) =
            (c(Content (smessage (senders s ! k)) \<mapsto> True),
             Forward ((smessage (senders s ! k))\<lparr>TTL := TTL (smessage (senders s ! k)) - 1\<rparr>)) \<and>
          ((\<forall>u \<in> set (call_ttls ?as). int (length (node_ids pair_graph)) \<le> 2 ^ 63 + sint u) \<longrightarrow>
             sint (TTL (smessage (senders s ! k)) - 1) < 0)"
    by (rule conjunct1)
  from this [rule_format, OF pre] nowrap
  have "runNode_message Map.empty (smessage (senders s ! 0)) =
            (Map.empty(Content (smessage (senders s ! 0)) \<mapsto> True),
             Forward ((smessage (senders s ! 0))\<lparr>TTL := TTL (smessage (senders s ! 0)) - 1\<rparr>))"
    and "sint (TTL (smessage (senders s ! 0)) - 1) < 0"
    by blast+
  with m have a: "runNode_message Map.empty \<lparr>Content = ''dummy'', TTL = 0\<rparr> =
         ([''dummy'' \<mapsto> True], Forward \<lparr>Content = ''dummy'', TTL = - 1\<rparr>)"
    and b: "sint (- 1 :: 64 word) < 0"
    by simp_all
  show ?thesis
    by (rule exI [of _ s]) (intro conjI r sel m a b)
qed

section \<open>A single hop\<close>

lemma filter_update_same:
  "i < length xs \<Longrightarrow> P (xs ! i) = P y \<Longrightarrow>
     length (filter P (xs[i := y])) = length (filter P xs)"
proof (induction xs arbitrary: i)
  case Nil
  then show ?case by simp
next
  case (Cons x xs)
  then show ?case by (cases i) auto
qed

lemma filter_update_drop:
  "i < length xs \<Longrightarrow> P (xs ! i) \<Longrightarrow> \<not> P y \<Longrightarrow>
     Suc (length (filter P (xs[i := y]))) = length (filter P xs)"
proof (induction xs arbitrary: i)
  case Nil
  then show ?case by simp
next
  case (Cons x xs)
  then show ?case by (cases i) auto
qed

lemma calls_none: "calls as = [] \<Longrightarrow> a \<in> set as \<Longrightarrow> a \<noteq> Call startNodeIdx ttl"
  by (induction as rule: calls.induct) auto

lemma calls_Cons_other: "(\<And>st u. a \<noteq> Call st u) \<Longrightarrow> calls (a # as) = calls as"
  by (cases a) auto

lemma calls_single:
  "calls as = [(st, u)] \<Longrightarrow>
     \<exists>pre post. as = pre @ Call st u # post \<and> calls pre = [] \<and> calls post = []"
proof (induction as)
  case Nil
  then show ?case by simp
next
  case (Cons a as)
  show ?case
  proof (cases "\<exists>st' u'. a = Call st' u'")
    case True
    then obtain st' u' where a: "a = Call st' u'" by blast
    with Cons.prems have "st' = st" "u' = u" "calls as = []" by simp_all
    with a have "a # as = [] @ Call st u # as \<and> calls [] = [] \<and> calls as = []" by simp
    then show ?thesis by blast
  next
    case False
    then have other: "\<And>st u. a \<noteq> Call st u" by blast
    with Cons.prems have "calls as = [(st, u)]" by (simp add: calls_Cons_other)
    with Cons.IH obtain pre post
      where "as = pre @ Call st u # post" "calls pre = []" "calls post = []" by blast
    with other have "a # as = (a # pre) @ Call st u # post \<and> calls (a # pre) = []
        \<and> calls post = []"
      by (simp add: calls_Cons_other)
    then show ?thesis by blast
  qed
qed

lemma peers_of_cong: "peers s' = peers s \<Longrightarrow> peers_of s' i = peers_of s i"
  by (simp add: peers_of_def)

lemma peers_of_updates:
  "peers_of (s\<lparr>clock := a\<rparr>) i = peers_of s i"
  "peers_of (s\<lparr>nodesCh := b\<rparr>) i = peers_of s i"
  "peers_of (s\<lparr>senders := c\<rparr>) i = peers_of s i"
  "peers_of (s\<lparr>caller := e\<rparr>) i = peers_of s i"
  "peers_of (s\<lparr>wg := f\<rparr>) i = peers_of s i"
  "peers_of (s\<lparr>simulationStart := h\<rparr>) i = peers_of s i"
  by (simp_all add: peers_of_def)

lemma step_peers:
  assumes "step s a = Next s'"
  shows "peers s' = peers s"
  using assms by (cases a) (auto elim!: stepE)

lemma step_not_called:
  assumes "step s a = Next s'" "caller s = NotCalled" "\<And>st u. a \<noteq> Call st u"
  shows "caller s' = NotCalled"
  using assms by (cases a) (auto elim!: stepE)

lemma NewSimulator_first_hops: "first_hops start (NewSimulator g table N d t0)"
  by (simp add: first_hops_def NewSimulator_def)

lemma call_first_hops:
  assumes "step s (Call start 1) = Next s'" "first_hops start s" "caller s = NotCalled"
  shows "first_hops start s'"
proof -
  from assms(1) have "SendMessage_call s start 1 = Next s'" by simp
  then show ?thesis using assms(2,3)
    by (elim step_CallE) (simp add: first_hops_def peers_of_updates)
qed

lemma step_first_hops:
  assumes st: "step s a = Next s'" and inv: "first_hops start s"
    and nc: "\<And>st u. a \<noteq> Call st u"
  shows "first_hops start s'"
proof -
  from inv have nosleep: "\<forall>a \<in> set (nodesCh s). case a of Sleeping dl c w m \<Rightarrow> False | _ \<Rightarrow> True"
    and snd: "\<forall>g \<in> set (senders s).
         sfrom g = start \<and> sto g \<in> set (peers_of s start) \<and> TTL (smessage g) = 1 \<and>
         (case sstage g of AtReportCh e \<Rightarrow> From e = start \<and> To e = sto g | _ \<Rightarrow> True)"
    and cl: "case caller s of
         NotCalled \<Rightarrow> senders s = []
       | InDelay w from m \<Rightarrow> senders s = [] \<and> from = start \<and> TTL m = 1
       | Collecting ret \<Rightarrow> tally start s ret
       | Returned ret \<Rightarrow> tally start s ret"
    by (simp_all add: first_hops_def)
  show ?thesis
  proof (cases a)
    case (Tick d)
    with st have "advance s d = Next s'" by simp
    then show ?thesis using inv
      by (elim step_TickE)
         (simp add: first_hops_def tally_def peers_of_updates split: caller.splits)
  next
    case (Boot i)
    with st have "runNode_start s i = Next s'" by simp
    then show ?thesis
    proof (cases rule: step_BootE)
      case 1
      have "\<forall>a \<in> set (nodesCh s'). case a of Sleeping dl c w m \<Rightarrow> False | _ \<Rightarrow> True"
        using nosleep 1(3) by (auto dest!: in_set_updateD)
      with snd cl 1(3) show ?thesis
        by (simp add: first_hops_def tally_def peers_of_updates split: caller.splits)
    qed
  next
    case (Recv k)
    with st have del: "sendMessage_deliver s k = Next s'" by simp
    let ?g = "senders s ! k"
    let ?e = "NewLogEntry (clock s) (simulationStart s) (sfrom ?g) (sto ?g)"
    let ?g' = "?g\<lparr>sstage := AtReportCh ?e\<rparr>"
    have upd: "k < length (senders s) \<and> sstage ?g = AtNodeCh
        \<and> senders s' = (senders s)[k := ?g'] \<and> caller s' = caller s \<and> peers s' = peers s
        \<and> (\<forall>a \<in> set (nodesCh s'). case a of Sleeping dl c w m \<Rightarrow> False | _ \<Rightarrow> True)"
      using del
    proof (cases rule: step_RecvE)
      case (Duplicate dl c)
      with nosleep show ?thesis by simp
    next
      case (Exhausted dl c)
      with nosleep show ?thesis by (auto dest!: in_set_updateD)
    next
      case (Forward dl c)
      from Forward(1) snd have "TTL (smessage ?g) = 1" by simp
      with Forward(6) show ?thesis by simp
    qed
    then have k: "k < length (senders s)" and stg: "sstage ?g = AtNodeCh"
      and s1: "senders s' = (senders s)[k := ?g']" and s2: "caller s' = caller s"
      and s3: "peers s' = peers s"
      and s4: "\<forall>a \<in> set (nodesCh s'). case a of Sleeping dl c w m \<Rightarrow> False | _ \<Rightarrow> True"
      by simp_all
    have p: "peers_of s' start = peers_of s start" using s3 by (rule peers_of_cong)
    from k snd have g: "sfrom ?g = start \<and> sto ?g \<in> set (peers_of s start)
        \<and> TTL (smessage ?g) = 1" by simp
    then have g': "sfrom ?g' = start \<and> sto ?g' \<in> set (peers_of s start) \<and>
        TTL (smessage ?g') = 1 \<and>
         (case sstage ?g' of AtReportCh e \<Rightarrow> From e = start \<and> To e = sto ?g' | _ \<Rightarrow> True)"
      by (simp add: NewLogEntry_def)
    have snd': "\<forall>g \<in> set (senders s').
         sfrom g = start \<and> sto g \<in> set (peers_of s' start) \<and> TTL (smessage g) = 1 \<and>
         (case sstage g of AtReportCh e \<Rightarrow> From e = start \<and> To e = sto g | _ \<Rightarrow> True)"
      unfolding s1 p using snd g' by (blast dest!: in_set_updateD)
    have cnt: "length (filter unfinished (senders s')) = length (filter unfinished (senders s))"
      unfolding s1 using k stg by (intro filter_update_same) (simp_all add: unfinished_def)
    have ne: "senders s \<noteq> []" using k by auto
    have cl': "case caller s' of
         NotCalled \<Rightarrow> senders s' = []
       | InDelay w from m \<Rightarrow> senders s' = [] \<and> from = start \<and> TTL m = 1
       | Collecting ret \<Rightarrow> tally start s' ret
       | Returned ret \<Rightarrow> tally start s' ret"
      using cl ne unfolding s2 by (cases "caller s") (simp_all add: tally_def p cnt)
    from s4 snd' cl' show ?thesis by (simp add: first_hops_def)
  next
    case (Wake i)
    with st have "runNode_propagate s i = Next s'" by simp
    then show ?thesis
    proof (cases rule: step_WakeE)
      case (1 dl c w m)
      from 1(1) have "nat i < length (nodesCh s)" by (auto simp: valid_idx_def)
      then have "nodesCh s ! nat i \<in> set (nodesCh s)" by (rule nth_mem)
      with 1(2) nosleep show ?thesis by auto
    qed
  next
    case (Expire i)
    with st have "runNode_timeout s i = Next s'" by simp
    then show ?thesis
    proof (cases rule: step_ExpireE)
      case (1 dl c)
      have "\<forall>a \<in> set (nodesCh s'). case a of Sleeping dl c w m \<Rightarrow> False | _ \<Rightarrow> True"
        using nosleep 1(5) by (auto dest!: in_set_updateD)
      with snd cl 1(5) show ?thesis
        by (simp add: first_hops_def tally_def peers_of_updates split: caller.splits)
    qed
  next
    case (Call startNodeIdx ttl)
    with nc [of startNodeIdx ttl] show ?thesis by simp
  next
    case MainWake
    with st have "SendMessage_propagate s = Next s'" by simp
    then show ?thesis
    proof (cases rule: step_MainWakeE)
      case (1 w st' m)
      with cl have e: "senders s = []" "st' = start" "TTL m = 1" by simp_all
      have s1: "senders s' = propagateMessage s start m" using 1(3) e by simp
      have p: "peers_of s' start = peers_of s start" using 1(3) by (simp add: peers_of_def)
      have n: "nodesCh s' = nodesCh s" using 1(3) by simp
      have c: "caller s' = Collecting []" using 1(3) by simp
      have snd': "\<forall>g \<in> set (senders s').
         sfrom g = start \<and> sto g \<in> set (peers_of s' start) \<and> TTL (smessage g) = 1 \<and>
         (case sstage g of AtReportCh e \<Rightarrow> From e = start \<and> To e = sto g | _ \<Rightarrow> True)"
        unfolding s1 p using e(3) by (auto simp: propagateMessage_def)
      have "filter unfinished (propagateMessage s start m) = propagateMessage s start m"
        by (simp add: propagateMessage_def unfinished_def filter_map comp_def)
      then have "tally start s' []"
        unfolding tally_def s1 p by (simp add: propagateMessage_def)
      with nosleep snd' show ?thesis unfolding first_hops_def n c by simp
    qed
  next
    case (Report k)
    with st have "sendMessage_report s k = Next s'" by simp
    then show ?thesis
    proof (cases rule: step_ReportE)
      case (1 e ret)
      let ?g = "senders s ! k"
      let ?g' = "?g\<lparr>sstage := Finished\<rparr>"
      have s1: "senders s' = (senders s)[k := ?g']" and c: "caller s' = Collecting (ret @ [e])"
        and n: "nodesCh s' = nodesCh s"
        using 1(4) by simp_all
      have p: "peers_of s' start = peers_of s start" using 1(4) by (simp add: peers_of_def)
      from 1(1,2) snd have g: "sfrom ?g = start \<and> sto ?g \<in> set (peers_of s start)
          \<and> TTL (smessage ?g) = 1 \<and> From e = start \<and> To e = sto ?g"
        by (auto dest!: bspec [OF _ nth_mem])
      then have g': "sfrom ?g' = start \<and> sto ?g' \<in> set (peers_of s start) \<and>
          TTL (smessage ?g') = 1 \<and>
          (case sstage ?g' of AtReportCh e \<Rightarrow> From e = start \<and> To e = sto ?g' | _ \<Rightarrow> True)"
        by simp
      have snd': "\<forall>g \<in> set (senders s').
         sfrom g = start \<and> sto g \<in> set (peers_of s' start) \<and> TTL (smessage g) = 1 \<and>
         (case sstage g of AtReportCh e \<Rightarrow> From e = start \<and> To e = sto g | _ \<Rightarrow> True)"
        unfolding s1 p using snd g' by (blast dest!: in_set_updateD)
      have cnt: "Suc (length (filter unfinished (senders s')))
          = length (filter unfinished (senders s))"
        unfolding s1 using 1(1,2) by (intro filter_update_drop) (simp_all add: unfinished_def)
      from cl 1(3) have "tally start s ret" by simp
      with g cnt have "tally start s' (ret @ [e])"
        unfolding tally_def p by auto
      with nosleep snd' show ?thesis unfolding first_hops_def n c by simp
    qed
  next
    case Done
    with st have "SendMessage_done s = Next s'" by simp
    then show ?thesis using inv
      by (elim step_DoneE)
         (simp add: first_hops_def tally_def peers_of_updates split: caller.splits)
  qed
qed

lemma run_first_hops:
  assumes "run s as = Next s'" "first_hops start s" "calls as = []"
  shows "first_hops start s'"
  using assms(1,2)
proof (rule run_invariant)
  fix x a y
  assume "first_hops start x" "a \<in> set as" "step x a = Next y"
  then show "first_hops start y"
    using calls_none [OF assms(3)] by (intro step_first_hops [of x a y]) auto
qed

lemma run_not_called:
  assumes "run s as = Next s'" "caller s = NotCalled" "calls as = []"
  shows "caller s' = NotCalled"
  using assms(1,2)
proof (rule run_invariant)
  fix x a y
  assume "caller x = NotCalled" "a \<in> set as" "step x a = Next y"
  then show "caller y = NotCalled"
    using calls_none [OF assms(3)] by (intro step_not_called [of x a y]) auto
qed

lemma reach_peers:
  assumes "run s as = Next s'"
  shows "peers s' = peers s"
  using assms
proof (rule run_invariant [where P = "\<lambda>x. peers x = peers s"])
  show "peers s = peers s" by simp
next
  fix x a y
  assume "peers x = peers s" "step x a = Next y"
  then show "peers y = peers s" using step_peers [of x a y] by simp
qed

lemma run_appendE:
  assumes "run s (as @ bs) = Next s'"
  obtains y where "run s as = Next y" "run y bs = Next s'"
  using assms by (cases "run s as") (simp_all add: run_append)

lemma reach_first_hops:
  assumes "run (NewSimulator g table N d t0) as = Next s" "calls as = [(start, 1)]"
  shows "first_hops start s"
proof -
  from calls_single [OF assms(2)] obtain pre post
    where split: "as = pre @ Call start 1 # post" and pre: "calls pre = []"
      and post: "calls post = []"
    by blast
  from assms(1) have "run (NewSimulator g table N d t0) (pre @ Call start 1 # post) = Next s"
    by (simp only: split)
  then obtain s1 where s1: "run (NewSimulator g table N d t0) pre = Next s1"
    and r1: "run s1 (Call start 1 # post) = Next s"
    by (rule run_appendE)
  from r1 obtain s2 where s2: "step s1 (Call start 1) = Next s2" and r2: "run s2 post = Next s"
    by (rule run_ConsE)
  have h1: "first_hops start s1"
    using s1 NewSimulator_first_hops pre by (rule run_first_hops)
  have "caller (NewSimulator g table N d t0) = NotCalled" by (simp add: NewSimulator_def)
  with s1 have "caller s1 = NotCalled" using pre by (rule run_not_called)
  with s2 h1 have "first_hops start s2" by (rule call_first_hops)
  with r2 show ?thesis using post by (rule run_first_hops)
qed

text \<open>
  C6, as the code has it. After a single call \<open>SendMessage(start, 1)\<close> every sender
  ever dispatched goes from the start node to one of its peers, so the returned log
  holds first hops only and no second hop exists; and the log's length is the degree
  \<open>d\<close> of the start node less the number of senders that have not reported when
  \<open>SendMessage\<close> returns. A sender to a peer whose actor has returned never reports, so
  the log has exactly \<open>d\<close> entries only if every dispatch found its peer's actor
  receiving.
\<close>

theorem C6_ttl_one_first_hops_only:
  assumes "run (NewSimulator g table N d t0) as = Next s"
    and "calls as = [(start, 1)]"
    and "caller s = Returned plog"
  shows "(\<forall>e \<in> set plog. From e = start
            \<and> To e \<in> set (peers_of (NewSimulator g table N d t0) start))
       \<and> (\<forall>x \<in> set (senders s). sfrom x = start
            \<and> sto x \<in> set (peers_of (NewSimulator g table N d t0) start))
       \<and> length plog + length (filter unfinished (senders s))
            = length (peers_of (NewSimulator g table N d t0) start)
       \<and> length plog \<le> length (peers_of (NewSimulator g table N d t0) start)"
proof -
  have "peers s = peers (NewSimulator g table N d t0)" using assms(1) by (rule reach_peers)
  then have p: "peers_of s start = peers_of (NewSimulator g table N d t0) start"
    by (rule peers_of_cong)
  from reach_first_hops [OF assms(1,2)] assms(3)
  have "tally start s plog"
    and "\<forall>x \<in> set (senders s). sfrom x = start \<and> sto x \<in> set (peers_of s start)"
    by (simp_all add: first_hops_def)
  then have "(\<forall>e \<in> set plog. From e = start \<and> To e \<in> set (peers_of s start))"
    and "length plog + length (filter unfinished (senders s)) = length (peers_of s start)"
    and "\<forall>x \<in> set (senders s). sfrom x = start \<and> sto x \<in> set (peers_of s start)"
    by (simp_all add: tally_def)
  then show ?thesis unfolding p by simp
qed

text \<open>
  Two parallel links give the start node degree 2. With TTL 1 node 1 returns on the
  first message it receives; the second sender never gets rid of its message, and the
  log that \<open>SendMessage\<close> returns has one entry.
\<close>

theorem C6_counterexample:
  "length (peers_of (NewSimulator twin_graph twin_table 4 10 0) 0) = 2
   \<and> result (run (NewSimulator twin_graph twin_table 4 10 0)
       [Boot 1, Boot 0, Call 0 1, Tick 10, MainWake, Recv 1, Report 1, Tick (10 * second),
        Expire 0, Done])
     = Some [\<lparr>Ts = 10, From = 0, To = 1\<rparr>]"
  by (simp add: eval_defs example_defs)

theorem C6_witness:
  "\<exists>s. run (NewSimulator pair_graph pair_table 4 10 0)
       [Boot 0, Boot 1, Call 0 1, Tick 10, MainWake, Recv 0, Report 0, Tick (10 * second),
        Expire 0, Done] = Next s
     \<and> calls [Boot 0, Boot 1, Call 0 1, Tick 10, MainWake, Recv 0, Report 0,
              Tick (10 * second), Expire 0, Done] = [(0, 1)]
     \<and> caller s = Returned [\<lparr>Ts = 10, From = 0, To = 1\<rparr>]
     \<and> peers_of (NewSimulator pair_graph pair_table 4 10 0) 0 = [1]
     \<and> length [\<lparr>Ts = 10, From = 0, To = 1\<rparr>] + length (filter unfinished (senders s)) = 1"
proof -
  let ?s0 = "NewSimulator pair_graph pair_table 4 10 0"
  let ?as = "[Boot 0, Boot 1, Call 0 1, Tick 10, MainWake, Recv 0, Report 0,
              Tick (10 * second), Expire 0, Done]"
  have "\<exists>s. run ?s0 ?as = Next s \<and> caller s = Returned [\<lparr>Ts = 10, From = 0, To = 1\<rparr>]"
    by (simp add: eval_defs example_defs)
  then obtain s where H: "run ?s0 ?as = Next s
      \<and> caller s = Returned [\<lparr>Ts = 10, From = 0, To = 1\<rparr>]" ..
  then have r: "run ?s0 ?as = Next s"
    and c: "caller s = Returned [\<lparr>Ts = 10, From = 0, To = 1\<rparr>]" by simp_all
  have cs: "calls ?as = [(0, 1)]" by simp
  have p: "peers_of ?s0 0 = [1]" by (simp add: peers_of_def NewSimulator_def pair_table_def)
  from C6_ttl_one_first_hops_only [OF r cs c]
  have "length [\<lparr>Ts = 10, From = 0, To = 1\<rparr>] + length (filter unfinished (senders s))
      = length (peers_of ?s0 0)" by (elim conjE)
  with p have n: "length [\<lparr>Ts = 10, From = 0, To = 1\<rparr>] + length (filter unfinished (senders s)) = 1"
    by simp
  show ?thesis
    by (rule exI [of _ s]) (intro conjI r cs c p n)
qed

section \<open>Node hits and node coverage\<close>

lemma hitNodes_None:
  "(hitNodes g js h = None) = (\<exists>j \<in> set js. NodeIDByIdx g j = None)"
  by (induction js arbitrary: h) (auto split: option.splits)

lemma hitNodes_Some:
  assumes "hitNodes g js h = Some h'"
  shows "hits h' nid = hits h nid + int (length (filter (\<lambda>j. NodeIDByIdx g j = Some nid) js))
       \<and> dom h' = dom h \<union> ids_hit g js"
  using assms
proof (induction js arbitrary: h)
  case Nil
  then show ?case by (simp add: ids_hit_def)
next
  case (Cons j js)
  from Cons.prems obtain x where x: "NodeIDByIdx g j = Some x"
    and rest: "hitNodes g js (h(x \<mapsto> hits h x + 1)) = Some h'"
    by (auto split: option.splits)
  note ih = Cons.IH [OF rest]
  from ih have a: "hits h' nid = hits (h(x \<mapsto> hits h x + 1)) nid
        + int (length (filter (\<lambda>j. NodeIDByIdx g j = Some nid) js))"
    by (rule conjunct1)
  from ih have b: "dom h' = dom (h(x \<mapsto> hits h x + 1)) \<union> ids_hit g js"
    by (rule conjunct2)
  have c: "hits (h(x \<mapsto> hits h x + 1)) nid = hits h nid + (if x = nid then 1 else 0)"
    by (simp add: hits_def)
  have d: "ids_hit g (j # js) = insert x (ids_hit g js)"
    using x by (auto simp: ids_hit_def)
  from a c x have "hits h' nid
      = hits h nid + int (length (filter (\<lambda>j. NodeIDByIdx g j = Some nid) (j # js)))"
    by simp
  moreover from b d have "dom h' = dom h \<union> ids_hit g (j # js)" by auto
  ultimately show ?case by simp
qed

lemma ids_hit_append: "ids_hit g (xs @ ys) = ids_hit g xs \<union> ids_hit g ys"
  by (auto simp: ids_hit_def)

lemma hitSteps_None:
  "(hitSteps g steps h = None) = (\<exists>j \<in> set (concat steps). NodeIDByIdx g j = None)"
proof (induction steps arbitrary: h)
  case Nil
  show ?case by simp
next
  case (Cons nodes rest)
  show ?case
  proof (cases "hitNodes g nodes h")
    case None
    then show ?thesis using hitNodes_None [of g nodes h] by auto
  next
    case (Some h')
    then have "\<not> (\<exists>j \<in> set nodes. NodeIDByIdx g j = None)"
      using hitNodes_None [of g nodes h] by simp
    with Some Cons.IH [of h'] show ?thesis by auto
  qed
qed

lemma hitSteps_Some:
  assumes "hitSteps g steps h = Some h'"
  shows "hits h' nid
          = hits h nid + int (length (filter (\<lambda>j. NodeIDByIdx g j = Some nid) (concat steps)))
       \<and> dom h' = dom h \<union> ids_hit g (concat steps)"
  using assms
proof (induction steps arbitrary: h)
  case Nil
  then show ?case by (simp add: ids_hit_def)
next
  case (Cons nodes rest)
  from Cons.prems obtain h1 where h1: "hitNodes g nodes h = Some h1"
    and rest: "hitSteps g rest h1 = Some h'"
    by (auto split: option.splits)
  from hitNodes_Some [OF h1, of nid] Cons.IH [OF rest]
  show ?case by (auto simp: ids_hit_append)
qed

lemma ids_hit_image:
  assumes "\<forall>j \<in> set js. NodeIDByIdx g j \<noteq> None"
  shows "ids_hit g js = (\<lambda>j. node_ids g ! nat j) ` set js"
proof
  show "ids_hit g js \<subseteq> (\<lambda>j. node_ids g ! nat j) ` set js"
    by (auto simp: ids_hit_def NodeIDByIdx_def split: if_splits)
  show "(\<lambda>j. node_ids g ! nat j) ` set js \<subseteq> ids_hit g js"
  proof
    fix x
    assume "x \<in> (\<lambda>j. node_ids g ! nat j) ` set js"
    then obtain j where j: "j \<in> set js" "x = node_ids g ! nat j" by blast
    with assms have "NodeIDByIdx g j = Some x"
      by (auto simp: NodeIDByIdx_def split: if_splits)
    with j(1) show "x \<in> ids_hit g js" by (auto simp: ids_hit_def)
  qed
qed

lemma card_ids_hit_distinct:
  assumes "\<forall>j \<in> set js. NodeIDByIdx g j \<noteq> None" "distinct (node_ids g)"
  shows "card (ids_hit g js) = card (set js)"
proof -
  have "inj_on (\<lambda>j. node_ids g ! nat j) (set js)"
  proof (rule inj_onI)
    fix i j
    assume i: "i \<in> set js" and j: "j \<in> set js"
      and eq: "node_ids g ! nat i = node_ids g ! nat j"
    from assms(1) i j have vi: "valid_idx (node_ids g) i" and vj: "valid_idx (node_ids g) j"
      by (auto simp: NodeIDByIdx_def split: if_splits)
    then have "nat i < length (node_ids g)" "nat j < length (node_ids g)"
      by (auto simp: valid_idx_def)
    with eq assms(2) have "nat i = nat j" by (simp add: nth_eq_iff_index_eq)
    with vi vj show "i = j" by (auto simp: valid_idx_def)
  qed
  then have "card ((\<lambda>j. node_ids g ! nat j) ` set js) = card (set js)" by (rule card_image)
  with ids_hit_image [OF assms(1)] show ?thesis by simp
qed

text \<open>
  C8. \<open>Analyze\<close> is fatal exactly when the log names an index that has no node.
  Otherwise every index in the log's \<open>Nodes\<close>, the receiving node of an entry, adds one
  hit to the count kept under the node's identifier and nothing else is counted: the
  count of an identifier is the number of occurrences of its node in the log, and an
  identifier that is not hit has no count. The node coverage has as its actual
  component the number of distinct identifiers hit, which is the number of distinct
  nodes hit when identifiers are unique, and as its total the number of nodes of the
  topology.
\<close>

theorem C8_node_hits_and_coverage:
  "(Analyze g plog = None) = (\<exists>j \<in> set (concat (Nodes plog)). NodeIDByIdx g j = None)
   \<and> (\<forall>st. Analyze g plog = Some st \<longrightarrow>
        (\<forall>id. hits (NodeHits st) nid
           = int (length (filter (\<lambda>j. NodeIDByIdx g j = Some nid) (concat (Nodes plog)))))
        \<and> dom (NodeHits st) = ids_hit g (concat (Nodes plog))
        \<and> Actual (NodeCoverage st) = int (card (ids_hit g (concat (Nodes plog))))
        \<and> Total (NodeCoverage st) = int (length (node_ids g))
        \<and> (distinct (node_ids g) \<longrightarrow>
             Actual (NodeCoverage st) = int (card (set (concat (Nodes plog))))))"
proof (intro conjI allI impI)
  have "(Analyze g plog = None) = (hitSteps g (Nodes plog) Map.empty = None)"
    by (simp add: Analyze_def analyzeNodeHits_def split: option.splits)
  then show "(Analyze g plog = None)
      = (\<exists>j \<in> set (concat (Nodes plog)). NodeIDByIdx g j = None)"
    by (simp only: hitSteps_None)
next
  fix st
  assume st: "Analyze g plog = Some st"
  then obtain h where h: "hitSteps g (Nodes plog) Map.empty = Some h"
    and nh: "NodeHits st = h" and nc: "NodeCoverage st = analyzeNodeCoverage g h"
    by (auto simp: Analyze_def analyzeNodeHits_def split: option.splits)
  have "(hitSteps g (Nodes plog) Map.empty = None)
      = (\<exists>j \<in> set (concat (Nodes plog)). NodeIDByIdx g j = None)"
    by (rule hitSteps_None)
  with h have neg: "\<not> (\<exists>j \<in> set (concat (Nodes plog)). NodeIDByIdx g j = None)" by simp
  have valid: "\<forall>j \<in> set (concat (Nodes plog)). NodeIDByIdx g j \<noteq> None"
  proof (intro ballI notI)
    fix j
    assume j: "j \<in> set (concat (Nodes plog))" and n: "NodeIDByIdx g j = None"
    from n j have "\<exists>j \<in> set (concat (Nodes plog)). NodeIDByIdx g j = None" by (rule bexI)
    with neg show False by (rule notE)
  qed
  have cnt: "hits h nid
      = int (length (filter (\<lambda>j. NodeIDByIdx g j = Some nid) (concat (Nodes plog))))" for nid
    using hitSteps_Some [OF h, of nid] by (simp add: hits_def)
  have dm: "dom h = ids_hit g (concat (Nodes plog))"
    using hitSteps_Some [OF h] by simp
  show "dom (NodeHits st) = ids_hit g (concat (Nodes plog))" using nh dm by simp
  show "Actual (NodeCoverage st) = int (card (ids_hit g (concat (Nodes plog))))"
    using nc dm by (simp add: analyzeNodeCoverage_def NewCoverage_def)
  show "Total (NodeCoverage st) = int (length (node_ids g))"
    using nc by (simp add: analyzeNodeCoverage_def NewCoverage_def)
  {
    fix nid
    show "hits (NodeHits st) nid
        = int (length (filter (\<lambda>j. NodeIDByIdx g j = Some nid) (concat (Nodes plog))))"
      using nh cnt by simp
  }
  {
    assume "distinct (node_ids g)"
    with valid have "card (ids_hit g (concat (Nodes plog))) = card (set (concat (Nodes plog)))"
      by (rule card_ids_hit_distinct)
    then show "Actual (NodeCoverage st) = int (card (set (concat (Nodes plog))))"
      using nc dm by (simp add: analyzeNodeCoverage_def NewCoverage_def)
  }
qed

theorem C8_witness:
  "Analyze pair_graph \<lparr>Timestamps = [10, 20], Indices = [[0], [0, 0]], Nodes = [[1], [0, 1]]\<rparr>
     = Some \<lparr>NodeHits = [''a'' \<mapsto> 1, ''b'' \<mapsto> 2],
             NodeCoverage = \<lparr>Actual = 2, Total = 2\<rparr>,
             LinkCoverage = \<lparr>Actual = 1, Total = 1\<rparr>\<rparr>
   \<and> hits [''a'' \<mapsto> 1, ''b'' \<mapsto> 2] ''b''
       = int (length (filter (\<lambda>j. NodeIDByIdx pair_graph j = Some ''b'') [1, 0, 1]))
   \<and> Analyze pair_graph \<lparr>Timestamps = [10], Indices = [[0]], Nodes = [[2]]\<rparr> = None"
proof -
  let ?plog = "\<lparr>Timestamps = [10, 20], Indices = [[0], [0, 0]], Nodes = [[1], [0, 1]]\<rparr>"
  let ?st = "\<lparr>NodeHits = [''a'' \<mapsto> 1, ''b'' \<mapsto> 2],
             NodeCoverage = \<lparr>Actual = 2, Total = 2\<rparr>,
             LinkCoverage = \<lparr>Actual = 1, Total = 1\<rparr>\<rparr>"
  have dm: "dom [''a'' \<mapsto> 1::int, ''b'' \<mapsto> 2] = {''a'', ''b''}" by auto
  have a: "Analyze pair_graph ?plog = Some ?st"
    by (simp add: Analyze_def analyzeNodeHits_def analyzeNodeCoverage_def
        analyzeLinkCoverage_def NewCoverage_def NodeIDByIdx_def valid_idx_def hits_def
        pair_graph_def dm)
  note c8 = C8_node_hits_and_coverage [of pair_graph ?plog]
  note c8b = c8 [THEN conjunct2, THEN spec, THEN mp, OF a]
  note c8c = c8b [THEN conjunct1, THEN spec, of "''b''"]
  from c8c have "hits (NodeHits ?st) ''b''
       = int (length (filter (\<lambda>j. NodeIDByIdx pair_graph j = Some ''b'') (concat (Nodes ?plog))))" .
  then have b: "hits [''a'' \<mapsto> 1, ''b'' \<mapsto> 2] ''b''
       = int (length (filter (\<lambda>j. NodeIDByIdx pair_graph j = Some ''b'') [1, 0, 1]))"
    by simp
  have c: "Analyze pair_graph \<lparr>Timestamps = [10], Indices = [[0]], Nodes = [[2]]\<rparr> = None"
    by (simp add: Analyze_def analyzeNodeHits_def NodeIDByIdx_def valid_idx_def pair_graph_def)
  from a b c show ?thesis by (intro conjI)
qed

end
